theory Spec2Isabelle
  imports Complex_Main "HOL-Library.Word" "HOL-Library.Signed_Division" "HOL-Library.Multiset"
begin

section \<open>Data of the benchmark\<close>

text \<open>
  The program is a single Go file, \<^verbatim>\<open>main.go\<close>. It talks to three collaborators that are
  not part of the repository: the SQL driver (\<^verbatim>\<open>database/sql\<close>), the clock and the
  latency estimator (\<^verbatim>\<open>tachymeter\<close>). The first two are modelled as oracles whose
  answers are inputs of the model; the third is modelled from the specification.

  The model covers \<^verbatim>\<open>establishConnection\<close>, \<^verbatim>\<open>run\<close>, and of \<^verbatim>\<open>main\<close> the warm-up pass, the
  header line and the ramp loop. The progress text on standard output, the creation and
  removal of the tables and the deferred clean-up are not modelled.
\<close>

type_synonym conn = nat
  \<comment> \<open>the identity of a \<^verbatim>\<open>*sql.Conn\<close> handle\<close>

type_synonym duration = int
  \<comment> \<open>\<^verbatim>\<open>time.Duration\<close>: a count of nanoseconds\<close>

type_synonym row_id = "64 word"
  \<comment> \<open>\<^verbatim>\<open>int64\<close> row identifiers scanned from \<^verbatim>\<open>RETURNING id\<close>\<close>

definition numLoops :: nat where
  "numLoops = 1000"

definition numTables :: int where
  "numTables = 50"

definition connRetries :: nat where
  "connRetries = 5"

section \<open>Percentile estimator\<close>

text \<open>
  Modelled from the spec: the estimator is the external package \<^verbatim>\<open>tachymeter\<close>, whose code
  is not in the repository. The specification defines its percentiles as: sort all ingested
  samples ascending and pick the value at the 1-indexed ordinal position
  \<open>ceil (pctl / 100 * count)\<close>, clamped to \<open>[1, count]\<close>. With no sample the values are
  undefined in the specification; the model reports zero there and no theorem relies on it.
\<close>

record tachymeter =
  t_size :: nat
  t_times :: "duration list"

definition tachymeter_New :: "nat \<Rightarrow> tachymeter" where
  "tachymeter_New sz = \<lparr>t_size = sz, t_times = []\<rparr>"

definition AddTime :: "duration \<Rightarrow> tachymeter \<Rightarrow> tachymeter" where
  "AddTime d t = t\<lparr>t_times := t_times t @ [d]\<rparr>"

definition ordinal :: "nat \<Rightarrow> nat \<Rightarrow> nat" where
  "ordinal pctl cnt = max 1 (min cnt ((pctl * cnt + 99) div 100))"

definition percentile :: "nat \<Rightarrow> duration list \<Rightarrow> duration" where
  "percentile pctl xs = (if xs = [] then 0 else sort xs ! (ordinal pctl (length xs) - 1))"

record metrics =
  P50 :: duration
  P75 :: duration
  P95 :: duration

definition Calc :: "tachymeter \<Rightarrow> metrics" where
  "Calc t = \<lparr>P50 = percentile 50 (t_times t),
             P75 = percentile 75 (t_times t),
             P95 = percentile 95 (t_times t)\<rparr>"

section \<open>Connection acquisition\<close>

text \<open>
  \<^verbatim>\<open>db.Conn\<close> is an oracle: \<open>dbc k\<close> is the answer to the \<open>k\<close>-th call made to the pool,
  either an error text or a connection handle. The state threaded through the function is
  the number of calls made so far. The back-off sleeps between attempts are logged by the
  number of uniform draws each one sums (\<open>i + 1\<close> for attempt \<open>i\<close>); their floating-point
  length is not modelled.
\<close>

type_synonym db = "nat \<Rightarrow> string + conn"

datatype 'a outcome = Returned 'a | Panicked string

function establish_loop ::
  "db \<Rightarrow> nat \<Rightarrow> nat \<Rightarrow> nat list \<Rightarrow> (string + conn) outcome \<times> nat \<times> nat list" where
  "establish_loop dbc calls i sleeps =
     (if i < connRetries then
        (case dbc calls of
           Inr c \<Rightarrow> (Returned (Inr c), calls + 1, sleeps)
         | Inl err \<Rightarrow>
             if i = connRetries - 1
             then (Returned (Inl (''Error opening connection: '' @ err)), calls + 1, sleeps)
             else establish_loop dbc (calls + 1) (i + 1) (sleeps @ [i + 1]))
      else (Panicked ''Unreachable'', calls, sleeps))"
  by pat_completeness auto
termination
  by (relation "measure (\<lambda>(dbc, calls, i, sleeps). connRetries - i)") auto

declare establish_loop.simps [simp del]

definition establishConnection ::
  "db \<Rightarrow> nat \<Rightarrow> (string + conn) outcome \<times> nat \<times> nat list" where
  "establishConnection dbc calls = establish_loop dbc calls 0 []"

section \<open>The workload unit\<close>

text \<open>
  One call of \<^verbatim>\<open>run\<close> sees the database through the answers to its own statements, and
  the clock through its two readings. These are the inputs of the model, together with the
  names that \<^verbatim>\<open>uuid.New().String()\<close> draws. The model returns what \<^verbatim>\<open>run\<close> returns and
  the statements it sent on the connection, in order.
\<close>

datatype request =
    BeginTx
  | Insert int string
  | Select int row_id
  | Delete int row_id
  | Commit

record run_env =
  now_start :: duration
  now_end :: duration
  uuid_New :: "nat \<Rightarrow> string"
  begin_res :: "string option"
  insert_res :: "nat \<Rightarrow> string + row_id"
  select_res :: "nat \<Rightarrow> string option"
  delete_res :: "nat \<Rightarrow> string option"
  commit_res :: "string option"

fun insert_rows ::
  "run_env \<Rightarrow> int \<Rightarrow> nat list \<Rightarrow> row_id list \<Rightarrow> request list
     \<Rightarrow> (string + row_id list) \<times> request list" where
  "insert_rows env tableNum [] ids sent = (Inr ids, sent)"
| "insert_rows env tableNum (i # rest) ids sent =
     (let name = uuid_New env i;
          sent' = sent @ [Insert tableNum name]
      in case insert_res env i of
           Inl err \<Rightarrow> (Inl (''Error inserting row: '' @ err), sent')
         | Inr v \<Rightarrow> insert_rows env tableNum rest (ids[i := v]) sent')"

fun select_rows ::
  "run_env \<Rightarrow> int \<Rightarrow> nat list \<Rightarrow> row_id list \<Rightarrow> request list
     \<Rightarrow> (string + unit) \<times> request list" where
  "select_rows env tableNum [] ids sent = (Inr (), sent)"
| "select_rows env tableNum (i # rest) ids sent =
     (let sent' = sent @ [Select tableNum (ids ! i)]
      in case select_res env i of
           Some err \<Rightarrow> (Inl (''Error selecting row: '' @ err), sent')
         | None \<Rightarrow> select_rows env tableNum rest ids sent')"

fun delete_rows ::
  "run_env \<Rightarrow> int \<Rightarrow> nat list \<Rightarrow> row_id list \<Rightarrow> request list
     \<Rightarrow> (string + unit) \<times> request list" where
  "delete_rows env tableNum [] ids sent = (Inr (), sent)"
| "delete_rows env tableNum (i # rest) ids sent =
     (let sent' = sent @ [Delete tableNum (ids ! i)]
      in case delete_res env i of
           Some err \<Rightarrow> (Inl (''Error deleting row: '' @ err), sent')
         | None \<Rightarrow> delete_rows env tableNum rest ids sent')"

definition run :: "run_env \<Rightarrow> conn \<Rightarrow> int \<Rightarrow> (string + duration) \<times> request list" where
  "run env c workerNum =
     (let tableNum = workerNum smod numTables;
          start = now_start env
      in case begin_res env of
           Some err \<Rightarrow> (Inl (''Error beginning transaction: '' @ err), [BeginTx])
         | None \<Rightarrow>
             (case insert_rows env tableNum [0..<10] (replicate 10 0) [BeginTx] of
                (Inl e, sent) \<Rightarrow> (Inl e, sent)
              | (Inr ids, sent) \<Rightarrow>
                  (case select_rows env tableNum [0..<10] ids sent of
                     (Inl e, sent) \<Rightarrow> (Inl e, sent)
                   | (Inr _, sent) \<Rightarrow>
                       (case delete_rows env tableNum [0..<10] ids sent of
                          (Inl e, sent) \<Rightarrow> (Inl e, sent)
                        | (Inr _, sent) \<Rightarrow>
                            (case commit_res env of
                               Some err \<Rightarrow>
                                 (Inl (''Error committing transaction: '' @ err),
                                  sent @ [Commit])
                             | None \<Rightarrow> (Inr (now_end env - start), sent @ [Commit]))))))"

section \<open>One ramp step: the driver and its goroutines\<close>

text \<open>
  \<^verbatim>\<open>Duration.Seconds\<close> of the Go standard library splits the nanosecond count into whole
  seconds and a remainder, \<^verbatim>\<open>sec := d / Second; nsec := d % Second\<close>, and returns
  \<^verbatim>\<open>float64(sec) + float64(nsec)/1e9\<close>. The model computes the same expression over the
  reals: the value is a number of seconds, and the rounding of the \<^verbatim>\<open>float64\<close> operations
  is not modelled.
\<close>

type_synonym seconds = real

definition Seconds :: "duration \<Rightarrow> seconds" where
  "Seconds d = real_of_int (d sdiv 1000000000) + real_of_int (d smod 1000000000) / 1000000000"

text \<open>
  Lines written to \<^verbatim>\<open>os.Stderr\<close>. A \<open>DataLine n p50 p75 p95\<close> is the line printed with
  the format \<^verbatim>\<open>%v,%v,%v,%v\<close> from \<open>i + 1\<close> and the three percentiles in seconds; the
  decimal text that \<^verbatim>\<open>%v\<close> produces for each value is not modelled, the line keeps the
  four values.
\<close>

datatype line = Text string | DataLine nat seconds seconds seconds

definition header :: line where
  "header = Text ''# connections,p50,p75,p95''"

text \<open>
  A goroutine started by the step holds the connection and the worker number it was
  started with, the pair \<^verbatim>\<open>elapsed, err\<close> once \<^verbatim>\<open>run\<close> has returned, the statements it
  sent, and whether its deferred \<^verbatim>\<open>wg.Done()\<close> has run.
\<close>

record goroutine =
  g_conn :: conn
  g_workerNum :: int
  g_result :: "(string + duration) option"
  g_sent :: "request list"
  g_done :: bool

datatype driver_pc = Launching nat | Waiting | Reported | Crashed string

record step_state =
  drv :: driver_pc
  goroutines :: "goroutine list"
  wg :: int
  tach :: tachymeter
  numErrors :: "32 word"
  step_err :: "line list"
  step_metrics :: "metrics option"

definition init_step :: "nat \<Rightarrow> line list \<Rightarrow> step_state" where
  "init_step i out =
     \<lparr>drv = Launching 0, goroutines = [], wg = int (i + 1),
      tach = tachymeter_New (i + 1), numErrors = 0,
      step_err = out, step_metrics = None\<rparr>"

text \<open>
  The interleaving of the driver and the goroutines is chosen by a schedule, a list of
  events. \<open>Driver\<close> is one move of the main goroutine: one iteration of the launching loop,
  leaving that loop, or returning from \<^verbatim>\<open>wg.Wait()\<close> and reporting (possible only when the
  counter is zero). \<open>Return k env\<close> is goroutine \<open>k\<close> getting the result of its call of
  \<^verbatim>\<open>run\<close> in the environment \<open>env\<close> and recording it. \<open>Done k\<close> is its deferred
  \<^verbatim>\<open>wg.Done()\<close>. An event that cannot happen in the state gives \<open>None\<close>; after a panic of
  the main goroutine nothing happens any more.
\<close>

datatype event = Driver | Return nat run_env | Done nat

definition crashed :: "step_state \<Rightarrow> bool" where
  "crashed s = (case drv s of Crashed p \<Rightarrow> True | _ \<Rightarrow> False)"

definition work_error_line :: "string \<Rightarrow> line" where
  "work_error_line err = Text (''Error during work loop: '' @ err)"

definition spawn :: "conn \<Rightarrow> nat \<Rightarrow> goroutine" where
  "spawn c i = \<lparr>g_conn = c, g_workerNum = int i, g_result = None, g_sent = [], g_done = False\<rparr>"

definition report :: "nat \<Rightarrow> step_state \<Rightarrow> step_state" where
  "report i s =
     (let m = Calc (tach s)
      in s\<lparr>drv := Reported, step_metrics := Some m,
            step_err := step_err s
              @ [DataLine (i + 1) (Seconds (P50 m)) (Seconds (P75 m)) (Seconds (P95 m))]\<rparr>)"

definition record_result ::
  "nat \<Rightarrow> (string + duration) \<times> request list \<Rightarrow> step_state \<Rightarrow> step_state" where
  "record_result k res s =
     (let g = (goroutines s ! k)\<lparr>g_result := Some (fst res), g_sent := snd res\<rparr>;
          s' = s\<lparr>goroutines := (goroutines s)[k := g]\<rparr>
      in case fst res of
           Inl err \<Rightarrow>
             s'\<lparr>numErrors := numErrors s + 1,
                step_err := step_err s @ [work_error_line err]\<rparr>
         | Inr elapsed \<Rightarrow> s'\<lparr>tach := AddTime elapsed (tach s)\<rparr>)"

fun fire :: "nat \<Rightarrow> conn list \<Rightarrow> event \<Rightarrow> step_state \<Rightarrow> step_state option" where
  "fire i cs Driver s =
     (case drv s of
        Launching j \<Rightarrow>
          if j < i + 1 then
            (if j < length cs
             then Some (s\<lparr>goroutines := goroutines s @ [spawn (cs ! j) i],
                          drv := Launching (j + 1)\<rparr>)
             else Some (s\<lparr>drv := Crashed ''index out of range''\<rparr>))
          else Some (s\<lparr>drv := Waiting\<rparr>)
      | Waiting \<Rightarrow> if wg s = 0 then Some (report i s) else None
      | Reported \<Rightarrow> None
      | Crashed p \<Rightarrow> None)"
| "fire i cs (Return k env) s =
     (if \<not> crashed s \<and> k < length (goroutines s) \<and> g_result (goroutines s ! k) = None
      then let g = goroutines s ! k
           in Some (record_result k (run env (g_conn g) (g_workerNum g)) s)
      else None)"
| "fire i cs (Done k) s =
     (if \<not> crashed s \<and> k < length (goroutines s) \<and> g_result (goroutines s ! k) \<noteq> None
         \<and> \<not> g_done (goroutines s ! k)
      then Some (s\<lparr>goroutines := (goroutines s)[k := (goroutines s ! k)\<lparr>g_done := True\<rparr>],
                   wg := wg s - 1\<rparr>)
      else None)"

fun exec :: "nat \<Rightarrow> conn list \<Rightarrow> event list \<Rightarrow> step_state \<Rightarrow> step_state option" where
  "exec i cs [] s = Some s"
| "exec i cs (e # es) s =
     (case fire i cs e s of None \<Rightarrow> None | Some s' \<Rightarrow> exec i cs es s')"

section \<open>The warm-up pass and the ramp loop\<close>

text \<open>
  The state of \<^verbatim>\<open>main\<close> that the loops change: the slice \<open>conns\<close>, the number of calls
  made to \<^verbatim>\<open>db.Conn\<close>, the handles on which \<^verbatim>\<open>Close\<close> was called, and the standard error
  stream. The world gives the answers of the collaborators: the pool, \<^verbatim>\<open>Close\<close>, the
  schedule of each ramp step and the environment of each warm-up call.
\<close>

record main_state =
  conns :: "conn list"
  db_calls :: nat
  closed :: "conn list"
  stderr :: "line list"

record world =
  db_Conn :: db
  conn_Close :: "conn \<Rightarrow> string option"
  schedule :: "nat \<Rightarrow> event list"
  warm_env :: "nat \<Rightarrow> run_env"

fun warmup :: "world \<Rightarrow> conn list \<Rightarrow> nat list \<Rightarrow> unit outcome" where
  "warmup w cs [] = Returned ()"
| "warmup w cs (i # rest) =
     (if i < length cs then
        (case fst (run (warm_env w i) (cs ! i) (int i)) of
           Inl err \<Rightarrow> Panicked err
         | Inr elapsed \<Rightarrow> warmup w cs rest)
      else Panicked ''index out of range'')"

text \<open>
  One iteration of the ramp loop. The result is \<open>None\<close> when the schedule of the step does
  not bring the driver past \<^verbatim>\<open>wg.Wait()\<close>: the program has no time-out, so it waits.
\<close>

definition ramp_iter :: "world \<Rightarrow> nat \<Rightarrow> main_state \<Rightarrow> main_state outcome option" where
  "ramp_iter w i st =
     (if i < length (conns st) then
        (case conn_Close w (conns st ! i) of
           Some err \<Rightarrow> Some (Panicked err)
         | None \<Rightarrow>
             (case establishConnection (db_Conn w) (db_calls st) of
                (Panicked p, calls, sleeps) \<Rightarrow> Some (Panicked p)
              | (Returned (Inl err), calls, sleeps) \<Rightarrow> Some (Panicked err)
              | (Returned (Inr c), calls, sleeps) \<Rightarrow>
                  (let cs = (conns st)[i := c]
                   in case exec i cs (schedule w i) (init_step i (stderr st)) of
                        None \<Rightarrow> None
                      | Some s \<Rightarrow>
                          (case drv s of
                             Reported \<Rightarrow>
                               Some (Returned \<lparr>conns = cs, db_calls = calls,
                                               closed = closed st @ [conns st ! i],
                                               stderr = step_err s\<rparr>)
                           | Crashed p \<Rightarrow> Some (Panicked p)
                           | _ \<Rightarrow> None))))
      else Some (Panicked ''index out of range''))"

fun ramp :: "world \<Rightarrow> nat list \<Rightarrow> main_state \<Rightarrow> main_state outcome option" where
  "ramp w [] st = Some (Returned st)"
| "ramp w (i # rest) st =
     (case ramp_iter w i st of
        None \<Rightarrow> None
      | Some (Panicked p) \<Rightarrow> Some (Panicked p)
      | Some (Returned st') \<Rightarrow> ramp w rest st')"

definition benchmark :: "world \<Rightarrow> nat \<Rightarrow> main_state \<Rightarrow> main_state outcome option" where
  "benchmark w nl st = ramp w [0..<nl] (st\<lparr>stderr := stderr st @ [header]\<rparr>)"

definition main_phases :: "world \<Rightarrow> nat \<Rightarrow> main_state \<Rightarrow> main_state outcome option" where
  "main_phases w nl st =
     (case warmup w (conns st) [0..<nl] of
        Panicked p \<Rightarrow> Some (Panicked p)
      | Returned u \<Rightarrow> benchmark w nl st)"

section \<open>Notation and example inputs\<close>

text \<open>
  The statements that a call of \<^verbatim>\<open>run\<close> sends in each phase: the inserts carry the drawn
  names, the lookups and deletes carry the identifiers \<open>f j\<close> that the inserts returned.
\<close>

abbreviation inserts :: "run_env \<Rightarrow> int \<Rightarrow> nat \<Rightarrow> request list" where
  "inserts env tn n \<equiv> map (\<lambda>j. Insert tn (uuid_New env j)) [0..<n]"

abbreviation selects :: "(nat \<Rightarrow> row_id) \<Rightarrow> int \<Rightarrow> nat \<Rightarrow> request list" where
  "selects f tn n \<equiv> map (\<lambda>j. Select tn (f j)) [0..<n]"

abbreviation deletes :: "(nat \<Rightarrow> row_id) \<Rightarrow> int \<Rightarrow> nat \<Rightarrow> request list" where
  "deletes f tn n \<equiv> map (\<lambda>j. Delete tn (f j)) [0..<n]"

text \<open>An environment in which every statement of \<^verbatim>\<open>run\<close> succeeds.\<close>

definition env_ok :: run_env where
  "env_ok = \<lparr>now_start = 100, now_end = 350,
             uuid_New = (\<lambda>i. replicate (Suc i) CHR ''a''),
             begin_res = None,
             insert_res = (\<lambda>i. Inr (of_nat i + 1)),
             select_res = (\<lambda>i. None),
             delete_res = (\<lambda>i. None),
             commit_res = None\<rparr>"

section \<open>Invariants of a ramp step\<close>

text \<open>
  The samples and failures that the goroutines of a step have recorded so far, read from
  their results, and the invariants that every state reachable in a step satisfies: the
  launching loop has started one goroutine per slot in order, each with the connection of
  its slot and the loop variable \<open>i\<close> as worker number; the counter of the wait group is
  \<open>i + 1\<close> minus the number of goroutines that have called \<^verbatim>\<open>Done\<close>; the estimator and the
  error counter agree with the results recorded; a recorded result is what \<^verbatim>\<open>run\<close>
  returned on the goroutine's own arguments.
\<close>

definition elapsed_of :: "goroutine \<Rightarrow> duration list" where
  "elapsed_of g = (case g_result g of Some (Inr d) \<Rightarrow> [d] | _ \<Rightarrow> [])"

definition failed :: "goroutine \<Rightarrow> bool" where
  "failed g = (case g_result g of Some (Inl e) \<Rightarrow> True | _ \<Rightarrow> False)"

definition inv_launch :: "nat \<Rightarrow> conn list \<Rightarrow> step_state \<Rightarrow> bool" where
  "inv_launch i cs s =
     ((case drv s of
         Launching j \<Rightarrow> length (goroutines s) = j \<and> j \<le> i + 1
       | Waiting \<Rightarrow> length (goroutines s) = i + 1
       | Reported \<Rightarrow> length (goroutines s) = i + 1 \<and> list_all g_done (goroutines s)
       | Crashed p \<Rightarrow> length (goroutines s) \<le> i + 1)
      \<and> (\<forall>k<length (goroutines s).
            g_conn (goroutines s ! k) = cs ! k \<and> g_workerNum (goroutines s ! k) = int i)
      \<and> list_all (\<lambda>g. g_done g \<longrightarrow> g_result g \<noteq> None) (goroutines s))"

definition inv_wg :: "nat \<Rightarrow> step_state \<Rightarrow> bool" where
  "inv_wg i s = (wg s + int (length (filter g_done (goroutines s))) = int (i + 1))"

definition inv_account :: "step_state \<Rightarrow> bool" where
  "inv_account s =
     (mset (t_times (tach s)) = mset (concat (map elapsed_of (goroutines s)))
      \<and> numErrors s = of_nat (length (filter failed (goroutines s)))
      \<and> (case step_metrics s of
            None \<Rightarrow> drv s \<noteq> Reported
          | Some m \<Rightarrow> drv s = Reported \<and> m = Calc (tach s)))"

definition inv_sent :: "step_state \<Rightarrow> bool" where
  "inv_sent s =
     list_all (\<lambda>g. case g_result g of
                      None \<Rightarrow> g_sent g = []
                    | Some r \<Rightarrow> (\<exists>env. run env (g_conn g) (g_workerNum g) = (r, g_sent g)))
       (goroutines s)"

definition inv_step :: "nat \<Rightarrow> conn list \<Rightarrow> step_state \<Rightarrow> bool" where
  "inv_step i cs s = (inv_launch i cs s \<and> inv_wg i s \<and> inv_account s \<and> inv_sent s)"

section \<open>What a schedule returns and writes\<close>

text \<open>
  The results of the calls of \<^verbatim>\<open>run\<close> of a step, in the order in which the schedule lets
  them return, split into the durations of the successful calls and the errors of the
  failed ones, also written for step \<open>i\<close> of a run of \<^verbatim>\<open>main\<close>; the lines a completed step
  appends to standard error; which lines are data lines; and the condition that the
  second clock reading of a call is not before the first.
\<close>

fun returns :: "nat \<Rightarrow> conn list \<Rightarrow> event list \<Rightarrow> (string + duration) list" where
  "returns i cs [] = []"
| "returns i cs (Return k env # es) = fst (run env (cs ! k) (int i)) # returns i cs es"
| "returns i cs (Driver # es) = returns i cs es"
| "returns i cs (Done k # es) = returns i cs es"

definition successes :: "(string + duration) list \<Rightarrow> duration list" where
  "successes rs = concat (map (\<lambda>r. case r of Inl err \<Rightarrow> [] | Inr d \<Rightarrow> [d]) rs)"

definition failures :: "(string + duration) list \<Rightarrow> string list" where
  "failures rs = concat (map (\<lambda>r. case r of Inl err \<Rightarrow> [err] | Inr d \<Rightarrow> []) rs)"

definition data_line :: "nat \<Rightarrow> duration list \<Rightarrow> line" where
  "data_line i ts =
     DataLine (i + 1) (Seconds (percentile 50 ts)) (Seconds (percentile 75 ts))
       (Seconds (percentile 95 ts))"


definition trace_ok :: "nat \<Rightarrow> conn list \<Rightarrow> line list \<Rightarrow> event list \<Rightarrow> step_state \<Rightarrow> bool" where
  "trace_ok i cs out evs s =
     (t_times (tach s) = successes (returns i cs evs)
      \<and> numErrors s = of_nat (length (failures (returns i cs evs)))
      \<and> step_err s = out @ map work_error_line (failures (returns i cs evs))
           @ (if drv s = Reported then [data_line i (t_times (tach s))] else []))"




definition clock_monotonic :: "event \<Rightarrow> bool" where
  "clock_monotonic e = (case e of Return k env \<Rightarrow> now_start env \<le> now_end env | _ \<Rightarrow> True)"

section \<open>Example schedules, worlds and states\<close>

text \<open>
  Concrete inputs on which the theorems are instantiated: an environment whose
  transaction cannot begin, complete schedules for the first and the second ramp step (in
  the second, slot 1 fails), a world with a pool that hands out the handles
  \<open>100, 101, ...\<close>, the same world with a failing second warm-up call, and the states of
  \<^verbatim>\<open>main\<close> before the header is written, after it, and after the first and second step.
\<close>

definition env_fail :: run_env where
  "env_fail = env_ok\<lparr>begin_res := Some ''bad connection''\<rparr>"

definition sched_one :: "event list" where
  "sched_one = [Driver, Driver, Return 0 env_ok, Done 0, Driver]"

definition sched_two :: "event list" where
  "sched_two = [Driver, Driver, Return 0 env_ok, Driver, Return 1 env_fail, Done 1, Done 0, Driver]"

definition world_ok :: world where
  "world_ok = \<lparr>db_Conn = (\<lambda>k. Inr (100 + k)),
               conn_Close = (\<lambda>c. None),
               schedule = (\<lambda>i. if i = 0 then sched_one else sched_two),
               warm_env = (\<lambda>j. env_ok)\<rparr>"

definition world_cold :: world where
  "world_cold = world_ok\<lparr>warm_env := (\<lambda>j. if j = 1 then env_fail else env_ok)\<rparr>"


definition st_start :: main_state where
  "st_start = \<lparr>conns = [10, 11], db_calls = 2, closed = [], stderr = [header]\<rparr>"

definition st_step1 :: main_state where
  "st_step1 = \<lparr>conns = [102, 11], db_calls = 3, closed = [10],
               stderr = [header, DataLine 1 (Seconds 250) (Seconds 250) (Seconds 250)]\<rparr>"

definition st_step2 :: main_state where
  "st_step2 = \<lparr>conns = [102, 103], db_calls = 4, closed = [10, 11],
               stderr = [header, DataLine 1 (Seconds 250) (Seconds 250) (Seconds 250),
                         work_error_line ''Error beginning transaction: bad connection'',
                         DataLine 2 (Seconds 250) (Seconds 250) (Seconds 250)]\<rparr>"

section \<open>Properties of the percentile estimator\<close>

lemma ordinal_bounds: "0 < n \<Longrightarrow> 1 \<le> ordinal p n \<and> ordinal p n \<le> n"
  by (simp add: ordinal_def)

lemma ordinal_mono: "p \<le> q \<Longrightarrow> ordinal p n \<le> ordinal q n"
  unfolding ordinal_def
  by (intro max.mono min.mono div_le_mono add_le_mono mult_le_mono1) simp_all

lemma percentile_mono:
  assumes "xs \<noteq> []" "p \<le> q"
  shows "percentile p xs \<le> percentile q xs"
proof -
  have n: "0 < length xs" using assms by simp
  have "ordinal p (length xs) - 1 \<le> ordinal q (length xs) - 1"
    using ordinal_mono [OF assms(2)] by (simp add: diff_le_mono)
  moreover have "ordinal q (length xs) - 1 < length (sort xs)"
    using ordinal_bounds [OF n, of q] n by (simp del: One_nat_def) linarith
  ultimately have "sort xs ! (ordinal p (length xs) - 1) \<le> sort xs ! (ordinal q (length xs) - 1)"
    by (intro sorted_nth_mono) simp_all
  then show ?thesis using assms by (simp add: percentile_def)
qed

lemma neg_div_100: "- ((- (k::int)) div 100) = (k + 99) div 100"
  by linarith

lemma nat_div_100: "nat ((int m + 99) div 100) = (m + 99) div 100"
  by (simp add: nat_div_distrib nat_add_distrib)

lemma ceiling_formula: "nat \<lceil>real p / 100 * real n\<rceil> = (p * n + 99) div 100"
proof -
  have "\<lceil>real p / 100 * real n\<rceil> = \<lceil>real_of_int (int (p * n)) / real_of_int 100\<rceil>"
    by simp
  also have "\<dots> = - ((- int (p * n)) div 100)"
    by (simp only: ceiling_divide_eq_div)
  also have "\<dots> = (int (p * n) + 99) div 100"
    by (rule neg_div_100)
  finally show ?thesis
    by (simp only: nat_div_100)
qed

lemma ordinal_ceiling:
  "ordinal p n = max 1 (min n (nat \<lceil>real p / 100 * real n\<rceil>))"
  by (simp only: ordinal_def ceiling_formula)

lemma percentile_mset: "mset xs = mset ys \<Longrightarrow> percentile p xs = percentile p ys"
proof -
  assume a: "mset xs = mset ys"
  then have "sort xs = sort ys"
    by (metis sorted_list_of_multiset_mset)
  moreover have "length xs = length ys" using a by (metis size_mset)
  moreover have "xs = [] \<longleftrightarrow> ys = []" using a by (metis mset_zero_iff)
  ultimately show ?thesis by (simp add: percentile_def)
qed

lemma percentile_single: "percentile p [v] = v"
  by (simp add: percentile_def ordinal_def)

lemma t_times_fold: "t_times (fold AddTime xs t) = t_times t @ xs"
  by (induction xs arbitrary: t) (simp_all add: AddTime_def)

lemma percentile_spec:
  "xs \<noteq> [] \<Longrightarrow>
   percentile p xs =
     sort xs ! (max 1 (min (length xs) (nat \<lceil>real p / 100 * real (length xs)\<rceil>)) - 1)"
  by (simp only: percentile_def ordinal_ceiling if_False)

text \<open>
  Claim C4. The percentile of a non-empty list of ingested samples is the value at the
  1-indexed position \<open>ceil (pctl / 100 * count)\<close>, clamped to \<open>[1, count]\<close>, of the samples
  sorted ascending. For any non-empty list of ingested samples the three reported
  percentiles are ordered, \<open>p50 \<le> p75 \<le> p95\<close>, and when exactly one sample \<open>v\<close> was
  ingested all three equal \<open>v\<close>.
\<close>

theorem percentiles_ordered:
  "(xs \<noteq> [] \<longrightarrow>
      P50 (Calc (fold AddTime xs (tachymeter_New n))) \<le> P75 (Calc (fold AddTime xs (tachymeter_New n)))
    \<and> P75 (Calc (fold AddTime xs (tachymeter_New n))) \<le> P95 (Calc (fold AddTime xs (tachymeter_New n)))
    \<and> P50 (Calc (fold AddTime xs (tachymeter_New n))) =
        sort xs ! (max 1 (min (length xs) (nat \<lceil>real 50 / 100 * real (length xs)\<rceil>)) - 1)
    \<and> P75 (Calc (fold AddTime xs (tachymeter_New n))) =
        sort xs ! (max 1 (min (length xs) (nat \<lceil>real 75 / 100 * real (length xs)\<rceil>)) - 1)
    \<and> P95 (Calc (fold AddTime xs (tachymeter_New n))) =
        sort xs ! (max 1 (min (length xs) (nat \<lceil>real 95 / 100 * real (length xs)\<rceil>)) - 1))
   \<and> Calc (AddTime v (tachymeter_New n)) = \<lparr>P50 = v, P75 = v, P95 = v\<rparr>"
proof (intro conjI impI)
  have ts: "t_times (fold AddTime xs (tachymeter_New n)) = xs"
    by (simp add: t_times_fold tachymeter_New_def)
  {
    assume ne: "xs \<noteq> []"
    show "P50 (Calc (fold AddTime xs (tachymeter_New n))) \<le> P75 (Calc (fold AddTime xs (tachymeter_New n)))"
      using percentile_mono [OF ne, of 50 75] by (simp add: Calc_def ts)
    show "P75 (Calc (fold AddTime xs (tachymeter_New n))) \<le> P95 (Calc (fold AddTime xs (tachymeter_New n)))"
      using percentile_mono [OF ne, of 75 95] by (simp add: Calc_def ts)
    show "P50 (Calc (fold AddTime xs (tachymeter_New n))) =
        sort xs ! (max 1 (min (length xs) (nat \<lceil>real 50 / 100 * real (length xs)\<rceil>)) - 1)"
      using percentile_spec [OF ne, of 50] by (simp only: Calc_def ts metrics.simps)
    show "P75 (Calc (fold AddTime xs (tachymeter_New n))) =
        sort xs ! (max 1 (min (length xs) (nat \<lceil>real 75 / 100 * real (length xs)\<rceil>)) - 1)"
      using percentile_spec [OF ne, of 75] by (simp only: Calc_def ts metrics.simps)
    show "P95 (Calc (fold AddTime xs (tachymeter_New n))) =
        sort xs ! (max 1 (min (length xs) (nat \<lceil>real 95 / 100 * real (length xs)\<rceil>)) - 1)"
      using percentile_spec [OF ne, of 95] by (simp only: Calc_def ts metrics.simps)
  }
  show "Calc (AddTime v (tachymeter_New n)) = \<lparr>P50 = v, P75 = v, P95 = v\<rparr>"
    by (simp add: Calc_def tachymeter_New_def AddTime_def percentile_single)
qed

theorem percentiles_ordered_witness:
  "[30, 10, 20, 40 :: int] \<noteq> [] \<and>
   P50 (Calc (fold AddTime [30, 10, 20, 40] (tachymeter_New 4))) \<le> P75 (Calc (fold AddTime [30, 10, 20, 40] (tachymeter_New 4))) \<and>
   P75 (Calc (fold AddTime [30, 10, 20, 40] (tachymeter_New 4))) \<le> P95 (Calc (fold AddTime [30, 10, 20, 40] (tachymeter_New 4)))"
proof -
  have ne: "[30, 10, 20, 40 :: int] \<noteq> []" by simp
  from percentiles_ordered [of "[30, 10, 20, 40]" 4 0] ne show ?thesis by blast
qed

lemma percentile_example:
  "Calc (fold AddTime [30, 10, 20, 40] (tachymeter_New 4)) = \<lparr>P50 = 20, P75 = 30, P95 = 40\<rparr>"
  by (simp add: Calc_def AddTime_def tachymeter_New_def percentile_def ordinal_def)

section \<open>Properties of connection acquisition\<close>

lemma establish_fail_step:
  "i < connRetries - 1 \<Longrightarrow> dbc c = Inl e \<Longrightarrow>
   establish_loop dbc c i sl = establish_loop dbc (c + 1) (i + 1) (sl @ [i + 1])"
  by (subst establish_loop.simps) (simp add: connRetries_def)

lemma establish_ok_step:
  "i < connRetries \<Longrightarrow> dbc c = Inr h \<Longrightarrow>
   establish_loop dbc c i sl = (Returned (Inr h), c + 1, sl)"
  by (subst establish_loop.simps) simp

lemma establish_last_step:
  "i = connRetries - 1 \<Longrightarrow> dbc c = Inl e \<Longrightarrow>
   establish_loop dbc c i sl = (Returned (Inl (''Error opening connection: '' @ e)), c + 1, sl)"
  by (subst establish_loop.simps) (simp add: connRetries_def)

lemma establish_loop_returns:
  "i < connRetries \<Longrightarrow>
   \<exists>r. fst (establish_loop dbc c i sl) = Returned r
        \<and> c < fst (snd (establish_loop dbc c i sl))
        \<and> fst (snd (establish_loop dbc c i sl)) + i \<le> c + connRetries"
proof (induction dbc c i sl rule: establish_loop.induct)
  case (1 dbc calls i sleeps)
  show ?case
  proof (cases "dbc calls")
    case (Inr h)
    then show ?thesis using "1.prems" by (simp add: establish_ok_step)
  next
    case (Inl e)
    show ?thesis
    proof (cases "i = connRetries - 1")
      case True
      then show ?thesis using Inl "1.prems" by (simp add: establish_last_step)
    next
      case False
      then have lt: "i + 1 < connRetries" and lt': "i < connRetries - 1" using "1.prems" by simp_all
      from "1.IH" [OF "1.prems" Inl False lt]
      show ?thesis
        unfolding establish_fail_step [of i dbc calls e sleeps, OF lt' Inl] by auto
    qed
  qed
qed

lemma establish_loop_skip:
  "i + k < connRetries \<Longrightarrow> (\<forall>j<k. isl (dbc (c + j))) \<Longrightarrow>
   establish_loop dbc c i sl = establish_loop dbc (c + k) (i + k) (sl @ map Suc [i..<i + k])"
proof (induction k arbitrary: c i sl)
  case 0
  then show ?case by simp
next
  case (Suc k)
  from Suc.prems(2) have "isl (dbc (c + 0))" by blast
  then obtain e where e: "dbc c = Inl e" by (cases "dbc c") simp_all
  have lt: "i < connRetries - 1" using Suc.prems(1) by simp
  have rest: "\<forall>j<k. isl (dbc (c + 1 + j))"
  proof (intro allI impI)
    fix j assume "j < k"
    then have "Suc j < Suc k" by simp
    with Suc.prems(2) have "isl (dbc (c + Suc j))" by blast
    then show "isl (dbc (c + 1 + j))" by simp
  qed
  have "establish_loop dbc c i sl = establish_loop dbc (c + 1) (i + 1) (sl @ [i + 1])"
    using lt e by (rule establish_fail_step)
  also have "\<dots> = establish_loop dbc (c + 1 + k) (i + 1 + k) ((sl @ [i + 1]) @ map Suc [i + 1..<i + 1 + k])"
    using Suc.prems(1) by (intro Suc.IH rest) simp
  also have "(sl @ [i + 1]) @ map Suc [i + 1..<i + 1 + k] = sl @ map Suc [i..<i + Suc k]"
    by (simp add: upt_conv_Cons)
  finally show ?case by simp
qed

text \<open>
  Claim C9. Every iteration of the retry loop of \<^verbatim>\<open>establishConnection\<close> returns a
  connection or, on the last attempt, an error: the function always returns, after at
  least one and at most 5 calls of \<^verbatim>\<open>db.Conn\<close>, and the \<^verbatim>\<open>panic("Unreachable")\<close> after the
  loop is never the outcome.
\<close>

theorem establishConnection_never_unreachable:
  "(\<exists>r. fst (establishConnection dbc calls) = Returned r)
   \<and> calls < fst (snd (establishConnection dbc calls))
   \<and> fst (snd (establishConnection dbc calls)) \<le> calls + 5"
  using establish_loop_returns [of 0 dbc calls "[]"]
  by (simp add: establishConnection_def connRetries_def)

text \<open>
  Claim C7. Connection acquisition makes at most 5 attempts. When the first \<open>k < 5\<close>
  attempts fail and the next one succeeds, the connection of that attempt is returned
  after \<open>k + 1\<close> calls (so four failures followed by a success give a connection). When
  the first five attempts all fail, the result is the error
  \<^verbatim>\<open>Error opening connection: \<close> followed by the cause of the fifth failure.
\<close>

theorem establishConnection_retries:
  "(k < 5 \<and> (\<forall>j<k. isl (dbc (calls + j))) \<and> dbc (calls + k) = Inr h \<longrightarrow>
      fst (establishConnection dbc calls) = Returned (Inr h)
      \<and> fst (snd (establishConnection dbc calls)) = calls + k + 1)
   \<and> ((\<forall>j<4. isl (dbc (calls + j))) \<and> dbc (calls + 4) = Inl cause \<longrightarrow>
      fst (establishConnection dbc calls) = Returned (Inl (''Error opening connection: '' @ cause))
      \<and> fst (snd (establishConnection dbc calls)) = calls + 5)
   \<and> fst (snd (establishConnection dbc calls)) \<le> calls + 5"
proof (intro conjI impI)
  show "fst (snd (establishConnection dbc calls)) \<le> calls + 5"
    using establish_loop_returns [of 0 dbc calls "[]"]
    by (simp add: establishConnection_def connRetries_def)
next
  assume a: "k < 5 \<and> (\<forall>j<k. isl (dbc (calls + j))) \<and> dbc (calls + k) = Inr h"
  then have "establish_loop dbc calls 0 [] = establish_loop dbc (calls + k) (0 + k) ([] @ map Suc [0..<0 + k])"
    by (intro establish_loop_skip) (simp_all add: connRetries_def)
  also have "\<dots> = (Returned (Inr h), calls + k + 1, [] @ map Suc [0..<0 + k])"
    using a by (intro establish_ok_step) (simp_all add: connRetries_def)
  finally show "fst (establishConnection dbc calls) = Returned (Inr h)"
    and "fst (snd (establishConnection dbc calls)) = calls + k + 1"
    by (simp_all add: establishConnection_def)
next
  assume a: "(\<forall>j<4. isl (dbc (calls + j))) \<and> dbc (calls + 4) = Inl cause"
  then have "establish_loop dbc calls 0 [] = establish_loop dbc (calls + 4) (0 + 4) ([] @ map Suc [0..<0 + 4])"
    by (intro establish_loop_skip) (simp_all add: connRetries_def)
  also have "\<dots> = (Returned (Inl (''Error opening connection: '' @ cause)), calls + 4 + 1, [] @ map Suc [0..<0 + 4])"
    using a by (intro establish_last_step) (simp_all add: connRetries_def)
  finally show "fst (establishConnection dbc calls) = Returned (Inl (''Error opening connection: '' @ cause))"
    and "fst (snd (establishConnection dbc calls)) = calls + 5"
    by (simp_all add: establishConnection_def)
qed

theorem establishConnection_retries_witness:
  "fst (establishConnection (\<lambda>n. if n < 4 then Inl ''refused'' else Inr 7) 0) = Returned (Inr 7)
   \<and> fst (snd (establishConnection (\<lambda>n. if n < 4 then Inl ''refused'' else Inr 7) 0)) = 5
   \<and> fst (establishConnection (\<lambda>n. Inl (if n < 4 then ''refused'' else ''too many clients'')) 0)
       = Returned (Inl ''Error opening connection: too many clients'')"
  using establishConnection_retries [of 4 "\<lambda>n. if n < 4 then Inl ''refused'' else Inr 7" 0 7]
    establishConnection_retries [of 0 "\<lambda>n. Inl (if n < 4 then ''refused'' else ''too many clients'')" 0 0 "''too many clients''"]
  by simp

section \<open>Properties of the workload unit\<close>

lemma upt_split: "k < n \<Longrightarrow> [0..<n] = [0..<k] @ k # [Suc k..<n]"
  by (metis less_imp_le_nat upt_add_eq_append upt_conv_Cons zero_le le_add_diff_inverse add_0)

lemma insert_rows_prefix:
  "\<forall>j\<in>set pre. insert_res env j = Inr (f j) \<Longrightarrow>
   insert_rows env tn (pre @ rest) ids sent =
   insert_rows env tn rest (fold (\<lambda>j xs. xs[j := f j]) pre ids)
     (sent @ map (\<lambda>j. Insert tn (uuid_New env j)) pre)"
  by (induction pre arbitrary: ids sent) simp_all

lemma select_rows_prefix:
  "\<forall>j\<in>set pre. select_res env j = None \<Longrightarrow>
   select_rows env tn (pre @ rest) ids sent =
   select_rows env tn rest ids (sent @ map (\<lambda>j. Select tn (ids ! j)) pre)"
  by (induction pre arbitrary: sent) simp_all

lemma delete_rows_prefix:
  "\<forall>j\<in>set pre. delete_res env j = None \<Longrightarrow>
   delete_rows env tn (pre @ rest) ids sent =
   delete_rows env tn rest ids (sent @ map (\<lambda>j. Delete tn (ids ! j)) pre)"
  by (induction pre arbitrary: sent) simp_all

lemma fold_update_nth:
  "j < length ids \<Longrightarrow>
   fold (\<lambda>j xs. xs[j := f j]) js ids ! j = (if j \<in> set js then f j else ids ! j)"
  by (induction js arbitrary: ids) (auto simp: nth_list_update)

lemma fold_update_length: "length (fold (\<lambda>j xs. xs[j := f j]) js ids) = length ids"
  by (induction js arbitrary: ids) simp_all

lemma fold_update_all:
  "fold (\<lambda>j xs. xs[j := f j]) [0..<n] (replicate n z) = map f [0..<n]"
  by (rule nth_equalityI) (simp_all add: fold_update_length fold_update_nth)

lemma insert_rows_ok:
  assumes "\<forall>j<n. insert_res env j = Inr (f j)"
  shows "insert_rows env tn [0..<n] (replicate n z) sent =
         (Inr (map f [0..<n]), sent @ map (\<lambda>j. Insert tn (uuid_New env j)) [0..<n])"
  using insert_rows_prefix [of "[0..<n]" env f tn "[]" "replicate n z" sent] assms
  by (simp add: fold_update_all)

lemma insert_rows_fail:
  assumes "k < n" "\<forall>j<k. insert_res env j = Inr (f j)" "insert_res env k = Inl cause"
  shows "insert_rows env tn [0..<n] ids sent =
         (Inl (''Error inserting row: '' @ cause),
          sent @ map (\<lambda>j. Insert tn (uuid_New env j)) [0..<Suc k])"
  using insert_rows_prefix [of "[0..<k]" env f tn "k # [Suc k..<n]" ids sent] assms
  by (simp add: upt_split [OF assms(1)])

lemma select_rows_ok:
  assumes "\<forall>j<n. select_res env j = None"
  shows "select_rows env tn [0..<n] ids sent =
         (Inr (), sent @ map (\<lambda>j. Select tn (ids ! j)) [0..<n])"
  using select_rows_prefix [of "[0..<n]" env tn "[]" ids sent] assms by simp

lemma select_rows_fail:
  assumes "k < n" "\<forall>j<k. select_res env j = None" "select_res env k = Some cause"
  shows "select_rows env tn [0..<n] ids sent =
         (Inl (''Error selecting row: '' @ cause),
          sent @ map (\<lambda>j. Select tn (ids ! j)) [0..<Suc k])"
  using select_rows_prefix [of "[0..<k]" env tn "k # [Suc k..<n]" ids sent] assms
  by (simp add: upt_split [OF assms(1)])

lemma delete_rows_ok:
  assumes "\<forall>j<n. delete_res env j = None"
  shows "delete_rows env tn [0..<n] ids sent =
         (Inr (), sent @ map (\<lambda>j. Delete tn (ids ! j)) [0..<n])"
  using delete_rows_prefix [of "[0..<n]" env tn "[]" ids sent] assms by simp

lemma delete_rows_fail:
  assumes "k < n" "\<forall>j<k. delete_res env j = None" "delete_res env k = Some cause"
  shows "delete_rows env tn [0..<n] ids sent =
         (Inl (''Error deleting row: '' @ cause),
          sent @ map (\<lambda>j. Delete tn (ids ! j)) [0..<Suc k])"
  using delete_rows_prefix [of "[0..<k]" env tn "k # [Suc k..<n]" ids sent] assms
  by (simp add: upt_split [OF assms(1)])

lemma map_ids_cong:
  "n \<le> m \<Longrightarrow> map (\<lambda>j. g (map f [0..<m] ! j)) [0..<n] = map (\<lambda>j. g (f j)) [0..<n]"
  by (rule map_cong) simp_all

lemma run_begin_fail:
  "begin_res env = Some cause \<Longrightarrow>
   run env c w = (Inl (''Error beginning transaction: '' @ cause), [BeginTx])"
  by (simp add: run_def Let_def)

lemma run_insert_fail:
  assumes "begin_res env = None" "k < 10" "\<forall>j<k. insert_res env j = Inr (f j)"
    "insert_res env k = Inl cause"
  shows "run env c w = (Inl (''Error inserting row: '' @ cause),
           BeginTx # inserts env (w smod numTables) (Suc k))"
  using assms(1) insert_rows_fail [OF assms(2-4), of "w smod numTables" "replicate 10 0" "[BeginTx]"]
  by (simp add: run_def Let_def del: upt_Suc)

lemma run_select_fail:
  assumes "begin_res env = None" "\<forall>j<10. insert_res env j = Inr (f j)"
    "k < 10" "\<forall>j<k. select_res env j = None" "select_res env k = Some cause"
  shows "run env c w = (Inl (''Error selecting row: '' @ cause),
           BeginTx # inserts env (w smod numTables) 10 @ selects f (w smod numTables) (Suc k))"
proof -
  have k: "Suc k \<le> 10" using assms(3) by simp
  note ins = insert_rows_ok [OF assms(2), of "w smod numTables" 0 "[BeginTx]"]
  have sel: "select_rows env (w smod numTables) [0..<10] (map f [0..<10]) sent =
      (Inl (''Error selecting row: '' @ cause), sent @ selects f (w smod numTables) (Suc k))"
    for sent
    using select_rows_fail [OF assms(3-5), of "w smod numTables" "map f [0..<10]" sent]
    by (simp only: map_ids_cong [OF k])
  show ?thesis
    by (simp add: run_def Let_def assms(1) ins sel del: upt_Suc)
qed

lemma run_delete_fail:
  assumes "begin_res env = None" "\<forall>j<10. insert_res env j = Inr (f j)"
    "\<forall>j<10. select_res env j = None"
    "k < 10" "\<forall>j<k. delete_res env j = None" "delete_res env k = Some cause"
  shows "run env c w = (Inl (''Error deleting row: '' @ cause),
           BeginTx # inserts env (w smod numTables) 10 @ selects f (w smod numTables) 10
             @ deletes f (w smod numTables) (Suc k))"
proof -
  have k: "Suc k \<le> 10" using assms(4) by simp
  note ins = insert_rows_ok [OF assms(2), of "w smod numTables" 0 "[BeginTx]"]
  have sel: "select_rows env (w smod numTables) [0..<10] (map f [0..<10]) sent =
      (Inr (), sent @ selects f (w smod numTables) 10)" for sent
    using select_rows_ok [OF assms(3), of "w smod numTables" "map f [0..<10]" sent]
    by (simp only: map_ids_cong [OF order_refl])
  have del: "delete_rows env (w smod numTables) [0..<10] (map f [0..<10]) sent =
      (Inl (''Error deleting row: '' @ cause), sent @ deletes f (w smod numTables) (Suc k))"
    for sent
    using delete_rows_fail [OF assms(4-6), of "w smod numTables" "map f [0..<10]" sent]
    by (simp only: map_ids_cong [OF k])
  show ?thesis
    by (simp add: run_def Let_def assms(1) ins sel del del: upt_Suc)
qed

lemma run_to_commit:
  assumes "begin_res env = None" "\<forall>j<10. insert_res env j = Inr (f j)"
    "\<forall>j<10. select_res env j = None" "\<forall>j<10. delete_res env j = None"
  shows "run env c w =
          (case commit_res env of
             Some err \<Rightarrow> Inl (''Error committing transaction: '' @ err)
           | None \<Rightarrow> Inr (now_end env - now_start env),
           BeginTx # inserts env (w smod numTables) 10 @ selects f (w smod numTables) 10
             @ deletes f (w smod numTables) 10 @ [Commit])"
proof -
  note ins = insert_rows_ok [OF assms(2), of "w smod numTables" 0 "[BeginTx]"]
  have sel: "select_rows env (w smod numTables) [0..<10] (map f [0..<10]) sent =
      (Inr (), sent @ selects f (w smod numTables) 10)" for sent
    using select_rows_ok [OF assms(3), of "w smod numTables" "map f [0..<10]" sent]
    by (simp only: map_ids_cong [OF order_refl])
  have del: "delete_rows env (w smod numTables) [0..<10] (map f [0..<10]) sent =
      (Inr (), sent @ deletes f (w smod numTables) 10)" for sent
    using delete_rows_ok [OF assms(4), of "w smod numTables" "map f [0..<10]" sent]
    by (simp only: map_ids_cong [OF order_refl])
  show ?thesis
    by (simp add: run_def Let_def assms(1) ins sel del del: upt_Suc split: option.splits)
qed

text \<open>
  Claim C6. A call of \<^verbatim>\<open>run\<close> sends, in this order, \<^verbatim>\<open>BeginTx\<close>, 10 inserts of the
  drawn names, 10 lookups, one per identifier returned by the inserts, 10 deletes of the
  same identifiers, and \<^verbatim>\<open>Commit\<close>, all on the table \<open>workerNum smod numTables\<close>. When
  every statement succeeds it returns the difference of the two clock readings. When a
  statement fails, nothing more is sent and the result is an error whose text names the
  phase (beginning transaction, inserting row, selecting row, deleting row, committing
  transaction) followed by the cause.
\<close>

theorem run_transaction:
  "(begin_res env = None \<and> (\<forall>j<10. insert_res env j = Inr (f j))
      \<and> (\<forall>j<10. select_res env j = None) \<and> (\<forall>j<10. delete_res env j = None)
      \<and> commit_res env = None \<longrightarrow>
      run env c w =
        (Inr (now_end env - now_start env),
         BeginTx # inserts env (w smod numTables) 10 @ selects f (w smod numTables) 10
           @ deletes f (w smod numTables) 10 @ [Commit]))
   \<and> (begin_res env = Some cause \<longrightarrow>
      run env c w = (Inl (''Error beginning transaction: '' @ cause), [BeginTx]))
   \<and> (begin_res env = None \<and> k < 10 \<and> (\<forall>j<k. insert_res env j = Inr (f j))
      \<and> insert_res env k = Inl cause \<longrightarrow>
      run env c w =
        (Inl (''Error inserting row: '' @ cause),
         BeginTx # inserts env (w smod numTables) (Suc k)))
   \<and> (begin_res env = None \<and> (\<forall>j<10. insert_res env j = Inr (f j))
      \<and> k < 10 \<and> (\<forall>j<k. select_res env j = None) \<and> select_res env k = Some cause \<longrightarrow>
      run env c w =
        (Inl (''Error selecting row: '' @ cause),
         BeginTx # inserts env (w smod numTables) 10 @ selects f (w smod numTables) (Suc k)))
   \<and> (begin_res env = None \<and> (\<forall>j<10. insert_res env j = Inr (f j))
      \<and> (\<forall>j<10. select_res env j = None)
      \<and> k < 10 \<and> (\<forall>j<k. delete_res env j = None) \<and> delete_res env k = Some cause \<longrightarrow>
      run env c w =
        (Inl (''Error deleting row: '' @ cause),
         BeginTx # inserts env (w smod numTables) 10 @ selects f (w smod numTables) 10
           @ deletes f (w smod numTables) (Suc k)))
   \<and> (begin_res env = None \<and> (\<forall>j<10. insert_res env j = Inr (f j))
      \<and> (\<forall>j<10. select_res env j = None) \<and> (\<forall>j<10. delete_res env j = None)
      \<and> commit_res env = Some cause \<longrightarrow>
      run env c w =
        (Inl (''Error committing transaction: '' @ cause),
         BeginTx # inserts env (w smod numTables) 10 @ selects f (w smod numTables) 10
           @ deletes f (w smod numTables) 10 @ [Commit]))"
proof (intro conjI impI)
  assume "begin_res env = None \<and> (\<forall>j<10. insert_res env j = Inr (f j))
      \<and> (\<forall>j<10. select_res env j = None) \<and> (\<forall>j<10. delete_res env j = None)
      \<and> commit_res env = None"
  then show "run env c w =
        (Inr (now_end env - now_start env),
         BeginTx # inserts env (w smod numTables) 10 @ selects f (w smod numTables) 10
           @ deletes f (w smod numTables) 10 @ [Commit])"
    using run_to_commit [of env f c w] by simp
next
  assume "begin_res env = Some cause"
  then show "run env c w = (Inl (''Error beginning transaction: '' @ cause), [BeginTx])"
    by (rule run_begin_fail)
next
  assume "begin_res env = None \<and> k < 10 \<and> (\<forall>j<k. insert_res env j = Inr (f j))
      \<and> insert_res env k = Inl cause"
  then show "run env c w =
        (Inl (''Error inserting row: '' @ cause),
         BeginTx # inserts env (w smod numTables) (Suc k))"
    using run_insert_fail [of env k f cause c w] by blast
next
  assume "begin_res env = None \<and> (\<forall>j<10. insert_res env j = Inr (f j))
      \<and> k < 10 \<and> (\<forall>j<k. select_res env j = None) \<and> select_res env k = Some cause"
  then show "run env c w =
        (Inl (''Error selecting row: '' @ cause),
         BeginTx # inserts env (w smod numTables) 10 @ selects f (w smod numTables) (Suc k))"
    using run_select_fail [of env f k cause c w] by blast
next
  assume "begin_res env = None \<and> (\<forall>j<10. insert_res env j = Inr (f j))
      \<and> (\<forall>j<10. select_res env j = None)
      \<and> k < 10 \<and> (\<forall>j<k. delete_res env j = None) \<and> delete_res env k = Some cause"
  then show "run env c w =
        (Inl (''Error deleting row: '' @ cause),
         BeginTx # inserts env (w smod numTables) 10 @ selects f (w smod numTables) 10
           @ deletes f (w smod numTables) (Suc k))"
    using run_delete_fail [of env f k cause c w] by blast
next
  assume "begin_res env = None \<and> (\<forall>j<10. insert_res env j = Inr (f j))
      \<and> (\<forall>j<10. select_res env j = None) \<and> (\<forall>j<10. delete_res env j = None)
      \<and> commit_res env = Some cause"
  then show "run env c w =
        (Inl (''Error committing transaction: '' @ cause),
         BeginTx # inserts env (w smod numTables) 10 @ selects f (w smod numTables) 10
           @ deletes f (w smod numTables) 10 @ [Commit])"
    using run_to_commit [of env f c w] by simp
qed

lemma tableNum_51: "(51::int) smod numTables = 1"
  by (simp add: signed_modulo_int_def numTables_def)

theorem run_transaction_witness:
  "run env_ok 7 51 =
     (Inr 250, BeginTx # inserts env_ok 1 10 @ selects (\<lambda>i. of_nat i + 1) 1 10
        @ deletes (\<lambda>i. of_nat i + 1) 1 10 @ [Commit])
   \<and> run (env_ok\<lparr>begin_res := Some ''bad connection''\<rparr>) 7 51 =
     (Inl ''Error beginning transaction: bad connection'', [BeginTx])
   \<and> fst (run (env_ok\<lparr>insert_res := (\<lambda>i. if i < 3 then Inr (of_nat i + 1) else Inl ''deadlock'')\<rparr>) 7 51) =
     Inl ''Error inserting row: deadlock''
   \<and> fst (run (env_ok\<lparr>select_res := (\<lambda>i. Some ''no rows'')\<rparr>) 7 51) =
     Inl ''Error selecting row: no rows''
   \<and> fst (run (env_ok\<lparr>delete_res := (\<lambda>i. if i < 9 then None else Some ''timeout'')\<rparr>) 7 51) =
     Inl ''Error deleting row: timeout''
   \<and> fst (run (env_ok\<lparr>commit_res := Some ''serialization failure''\<rparr>) 7 51) =
     Inl ''Error committing transaction: serialization failure''"
  using run_transaction [where env = env_ok and f = "\<lambda>i. of_nat i + 1" and k = 0 and cause = "[]" and c = 7 and w = 51]
    run_transaction [where env = "env_ok\<lparr>begin_res := Some ''bad connection''\<rparr>" and f = "\<lambda>i. of_nat i + 1" and k = 0 and cause = "''bad connection''" and c = 7 and w = 51]
    run_transaction [where env = "env_ok\<lparr>insert_res := (\<lambda>i. if i < 3 then Inr (of_nat i + 1) else Inl ''deadlock'')\<rparr>" and f = "\<lambda>i. of_nat i + 1" and k = 3 and cause = "''deadlock''" and c = 7 and w = 51]
    run_transaction [where env = "env_ok\<lparr>select_res := (\<lambda>i. Some ''no rows'')\<rparr>" and f = "\<lambda>i. of_nat i + 1" and k = 0 and cause = "''no rows''" and c = 7 and w = 51]
    run_transaction [where env = "env_ok\<lparr>delete_res := (\<lambda>i. if i < 9 then None else Some ''timeout'')\<rparr>" and f = "\<lambda>i. of_nat i + 1" and k = 9 and cause = "''timeout''" and c = 7 and w = 51]
    run_transaction [where env = "env_ok\<lparr>commit_res := Some ''serialization failure''\<rparr>" and f = "\<lambda>i. of_nat i + 1" and k = 0 and cause = "''serialization failure''" and c = 7 and w = 51]
  by (simp add: env_ok_def tableNum_51 del: upt_Suc)

section \<open>Properties of a ramp step\<close>

lemma exec_invariant:
  assumes "exec i cs evs s = Some s'" "P s"
    and step: "\<And>e s s'. P s \<Longrightarrow> fire i cs e s = Some s' \<Longrightarrow> P s'"
  shows "P s'"
  using assms(1,2)
proof (induction evs arbitrary: s)
  case Nil
  then show ?case by simp
next
  case (Cons e evs)
  then obtain s1 where s1: "fire i cs e s = Some s1" "exec i cs evs s1 = Some s'"
    by (auto split: option.splits)
  from step [OF Cons.prems(2) s1(1)] s1(2) show ?case by (rule Cons.IH [rotated])
qed

lemma inv_launch_init: "inv_launch i cs (init_step i out)"
  by (simp add: inv_launch_def init_step_def)

lemma inv_wg_init: "inv_wg i (init_step i out)"
  by (simp add: inv_wg_def init_step_def)

lemma inv_account_init: "inv_account (init_step i out)"
  by (simp add: inv_account_def init_step_def tachymeter_New_def)

lemma fire_Driver_cases:
  assumes "fire i cs Driver s = Some s'"
  obtains (spawn) j where "drv s = Launching j" "j < i + 1" "j < length cs"
      "s' = s\<lparr>goroutines := goroutines s @ [spawn (cs ! j) i], drv := Launching (j + 1)\<rparr>"
  | (crash) j where "drv s = Launching j" "j < i + 1" "\<not> j < length cs"
      "s' = s\<lparr>drv := Crashed ''index out of range''\<rparr>"
  | (wait) j where "drv s = Launching j" "\<not> j < i + 1" "s' = s\<lparr>drv := Waiting\<rparr>"
  | (report) "drv s = Waiting" "wg s = 0" "s' = report i s"
  using assms by (cases "drv s") (auto split: if_splits)

lemma fire_Return_cases:
  assumes "fire i cs (Return k env) s = Some s'"
  obtains "k < length (goroutines s)" "g_result (goroutines s ! k) = None"
    "s' = record_result k (run env (g_conn (goroutines s ! k)) (g_workerNum (goroutines s ! k))) s"
    "\<not> crashed s"
  using assms by (auto split: if_splits simp: Let_def)

lemma fire_Done_cases:
  assumes "fire i cs (Done k) s = Some s'"
  obtains "k < length (goroutines s)" "g_result (goroutines s ! k) \<noteq> None"
    "\<not> g_done (goroutines s ! k)"
    "s' = s\<lparr>goroutines := (goroutines s)[k := (goroutines s ! k)\<lparr>g_done := True\<rparr>],
            wg := wg s - 1\<rparr>"
    "\<not> crashed s"
  using assms by (auto split: if_splits)

lemma record_result_fields:
  "drv (record_result k res s) = drv s"
  "wg (record_result k res s) = wg s"
  "step_metrics (record_result k res s) = step_metrics s"
  "goroutines (record_result k res s) =
     (goroutines s)[k := (goroutines s ! k)\<lparr>g_result := Some (fst res), g_sent := snd res\<rparr>]"
  by (simp_all add: record_result_def Let_def split: sum.splits)

lemma list_all_update:
  "list_all P xs \<Longrightarrow> P y \<Longrightarrow> list_all P (xs[k := y])"
  by (induction xs arbitrary: k) (auto split: nat.splits)

lemma list_all_nth: "list_all P xs \<Longrightarrow> k < length xs \<Longrightarrow> P (xs ! k)"
  by (simp add: list_all_length)

lemma length_filter_update:
  "k < length xs \<Longrightarrow>
   length (filter P (xs[k := y])) + (if P (xs ! k) then 1 else 0) =
   length (filter P xs) + (if P y then 1 else 0)"
proof (induction xs arbitrary: k)
  case Nil
  then show ?case by simp
next
  case (Cons x xs)
  show ?case
  proof (cases k)
    case 0
    then show ?thesis by simp
  next
    case (Suc m)
    then have "m < length xs" using Cons.prems by simp
    from Cons.IH [OF this] show ?thesis using Suc by simp
  qed
qed

lemma filter_all_length: "length (filter P xs) = length xs \<Longrightarrow> list_all P xs"
proof (induction xs)
  case Nil
  then show ?case by simp
next
  case (Cons x xs)
  have le: "length (filter P xs) \<le> length xs" by (rule length_filter_le)
  show ?case
  proof (cases "P x")
    case True
    then show ?thesis using Cons by simp
  next
    case False
    then show ?thesis using Cons.prems le by simp
  qed
qed

lemma mset_concat_update:
  "k < length xs \<Longrightarrow> f (xs ! k) = [] \<Longrightarrow>
   mset (concat (map f (xs[k := y]))) = mset (f y) + mset (concat (map f xs))"
proof (induction xs arbitrary: k)
  case Nil
  then show ?case by simp
next
  case (Cons x xs)
  show ?case
  proof (cases k)
    case 0
    then show ?thesis using Cons.prems by simp
  next
    case (Suc m)
    then have "m < length xs" "f (xs ! m) = []" using Cons.prems by simp_all
    from Cons.IH [OF this] show ?thesis using Suc by simp
  qed
qed

lemma inv_wg_fire:
  assumes "inv_wg i s" "fire i cs e s = Some s'"
  shows "inv_wg i s'"
proof (cases e)
  case Driver
  with assms(2) have f: "fire i cs Driver s = Some s'" by simp
  from f show ?thesis
    by (cases rule: fire_Driver_cases)
      (use assms(1) in \<open>simp_all add: inv_wg_def spawn_def report_def Let_def\<close>)
next
  case (Return k env)
  with assms(2) have f: "fire i cs (Return k env) s = Some s'" by simp
  from f show ?thesis
  proof (cases rule: fire_Return_cases)
    case 1
    define g where "g = (goroutines s ! k)\<lparr>g_result :=
        Some (fst (run env (g_conn (goroutines s ! k)) (g_workerNum (goroutines s ! k)))),
      g_sent := snd (run env (g_conn (goroutines s ! k)) (g_workerNum (goroutines s ! k)))\<rparr>"
    have "g_done g = g_done (goroutines s ! k)" by (simp add: g_def)
    with length_filter_update [OF 1(1), of g_done g]
    have "length (filter g_done ((goroutines s)[k := g])) = length (filter g_done (goroutines s))"
      by (simp split: if_splits)
    then show ?thesis using assms(1) 1(3)
      by (simp add: inv_wg_def record_result_fields g_def)
  qed
next
  case (Done k)
  with assms(2) have f: "fire i cs (Done k) s = Some s'" by simp
  from f show ?thesis
  proof (cases rule: fire_Done_cases)
    case 1
    from length_filter_update [OF 1(1), of g_done "(goroutines s ! k)\<lparr>g_done := True\<rparr>"]
    show ?thesis using assms(1) 1
      by (simp add: inv_wg_def)
  qed
qed

lemma inv_launch_fire:
  assumes "inv_launch i cs s" "inv_wg i s" "fire i cs e s = Some s'"
  shows "inv_launch i cs s'"
proof (cases e)
  case Driver
  with assms(3) have f: "fire i cs Driver s = Some s'" by simp
  from f show ?thesis
  proof (cases rule: fire_Driver_cases)
    case (spawn j)
    then show ?thesis using assms(1)
      by (auto simp: inv_launch_def spawn_def nth_append less_Suc_eq)
  next
    case (crash j)
    then show ?thesis using assms(1) by (simp add: inv_launch_def)
  next
    case (wait j)
    then show ?thesis using assms(1) by (simp add: inv_launch_def)
  next
    case report
    have len: "length (goroutines s) = i + 1"
      using assms(1) report(1) by (simp add: inv_launch_def)
    have "length (filter g_done (goroutines s)) = length (goroutines s)"
      using assms(2) report(2) len by (simp add: inv_wg_def)
    then have "list_all g_done (goroutines s)" by (rule filter_all_length)
    then show ?thesis using report assms(1) len
      by (simp add: inv_launch_def report_def Let_def)
  qed
next
  case (Return k env)
  with assms(3) have f: "fire i cs (Return k env) s = Some s'" by simp
  from f show ?thesis
  proof (cases rule: fire_Return_cases)
    case 1
    have nd: "\<not> g_done (goroutines s ! k)"
      using assms(1) 1(1,2) by (auto simp: inv_launch_def list_all_length)
    have "drv s \<noteq> Reported"
      using assms(1) 1(1) nd by (auto simp: inv_launch_def list_all_length)
    then show ?thesis using assms(1) 1
      by (cases "drv s") (auto simp: inv_launch_def record_result_fields nth_list_update intro!: list_all_update)
  qed
next
  case (Done k)
  with assms(3) have f: "fire i cs (Done k) s = Some s'" by simp
  from f show ?thesis
  proof (cases rule: fire_Done_cases)
    case 1
    have "drv s \<noteq> Reported"
      using assms(1) 1(1,3) by (auto simp: inv_launch_def list_all_length)
    then show ?thesis using assms(1) 1
      by (cases "drv s") (auto simp: inv_launch_def nth_list_update intro!: list_all_update)
  qed
qed

lemma record_result_Inl:
  assumes "fst res = Inl err"
  shows "tach (record_result k res s) = tach s"
    and "numErrors (record_result k res s) = numErrors s + 1"
    and "step_err (record_result k res s) =
           step_err s @ [work_error_line err]"
  using assms by (simp_all add: record_result_def Let_def)

lemma record_result_Inr:
  assumes "fst res = Inr elapsed"
  shows "tach (record_result k res s) = AddTime elapsed (tach s)"
    and "numErrors (record_result k res s) = numErrors s"
    and "step_err (record_result k res s) = step_err s"
  using assms by (simp_all add: record_result_def Let_def)

lemma map_update_same:
  "k < length xs \<Longrightarrow> f y = f (xs ! k) \<Longrightarrow> map f (xs[k := y]) = map f xs"
  by (simp add: map_update list_update_same_conv)

lemma filter_length_update_same:
  "k < length xs \<Longrightarrow> P y = P (xs ! k) \<Longrightarrow>
   length (filter P (xs[k := y])) = length (filter P xs)"
  using length_filter_update [of k xs P y] by (simp split: if_splits)

lemma metrics_None: "inv_account s \<Longrightarrow> drv s \<noteq> Reported \<Longrightarrow> step_metrics s = None"
  by (cases "step_metrics s") (simp_all add: inv_account_def)

lemma inv_account_fire:
  assumes "inv_account s" "inv_launch i cs s" "fire i cs e s = Some s'"
  shows "inv_account s'"
proof (cases e)
  case Driver
  with assms(3) have f: "fire i cs Driver s = Some s'" by simp
  from f show ?thesis
  proof (cases rule: fire_Driver_cases)
    case (spawn j)
    then have "step_metrics s = None" using assms(1) by (simp add: metrics_None)
    then show ?thesis using spawn assms(1)
      by (simp add: inv_account_def spawn_def elapsed_of_def failed_def)
  next
    case (crash j)
    then have "step_metrics s = None" using assms(1) by (simp add: metrics_None)
    then show ?thesis using crash assms(1) by (simp add: inv_account_def)
  next
    case (wait j)
    then have "step_metrics s = None" using assms(1) by (simp add: metrics_None)
    then show ?thesis using wait assms(1) by (simp add: inv_account_def)
  next
    case report
    then show ?thesis using assms(1) by (simp add: inv_account_def report_def Let_def)
  qed
next
  case (Return k env)
  with assms(3) have f: "fire i cs (Return k env) s = Some s'" by simp
  from f show ?thesis
  proof (cases rule: fire_Return_cases)
    case 1
    define res where "res = run env (g_conn (goroutines s ! k)) (g_workerNum (goroutines s ! k))"
    define g where "g = (goroutines s ! k)\<lparr>g_result := Some (fst res), g_sent := snd res\<rparr>"
    have s': "s' = record_result k res s" using 1(3) by (simp add: res_def)
    have gs': "goroutines (record_result k res s) = (goroutines s)[k := g]"
      by (simp add: record_result_fields g_def)
    have nd: "\<not> g_done (goroutines s ! k)"
      using assms(2) 1(1,2) by (auto simp: inv_launch_def list_all_length)
    have nr: "drv s \<noteq> Reported"
      using assms(2) 1(1) nd by (auto simp: inv_launch_def list_all_length)
    then have m: "step_metrics s' = None" "drv s' \<noteq> Reported"
      using assms(1) by (simp_all add: s' record_result_fields metrics_None)
    have old: "elapsed_of (goroutines s ! k) = []" "\<not> failed (goroutines s ! k)"
      using 1(2) by (simp_all add: elapsed_of_def failed_def)
    show ?thesis
    proof (cases "fst res")
      case (Inl err)
      have new: "elapsed_of g = []" "failed g"
        using Inl by (simp_all add: elapsed_of_def failed_def g_def)
      have "length (filter failed ((goroutines s)[k := g])) = length (filter failed (goroutines s)) + 1"
        using length_filter_update [OF 1(1), of failed g] old(2) new(2) by simp
      moreover have "mset (concat (map elapsed_of ((goroutines s)[k := g]))) =
          mset (concat (map elapsed_of (goroutines s)))"
        using mset_concat_update [of k "goroutines s" elapsed_of g] 1(1) old(1) new(1) by simp
      ultimately show ?thesis using assms(1) m
        by (simp add: inv_account_def gs' s' record_result_Inl [OF Inl])
    next
      case (Inr d)
      have new: "elapsed_of g = [d]" "\<not> failed g"
        using Inr by (simp_all add: elapsed_of_def failed_def g_def)
      have "length (filter failed ((goroutines s)[k := g])) = length (filter failed (goroutines s))"
        using length_filter_update [OF 1(1), of failed g] old(2) new(2) by simp
      moreover have "mset (concat (map elapsed_of ((goroutines s)[k := g]))) =
          add_mset d (mset (concat (map elapsed_of (goroutines s))))"
        using mset_concat_update [of k "goroutines s" elapsed_of g] 1(1) old(1) new(1) by simp
      ultimately show ?thesis using assms(1) m
        by (simp add: inv_account_def gs' s' record_result_Inr [OF Inr] AddTime_def)
    qed
  qed
next
  case (Done k)
  with assms(3) have f: "fire i cs (Done k) s = Some s'" by simp
  from f show ?thesis
  proof (cases rule: fire_Done_cases)
    case 1
    define g where "g = (goroutines s ! k)\<lparr>g_done := True\<rparr>"
    have nr: "drv s \<noteq> Reported"
      using assms(2) 1(1,3) by (auto simp: inv_launch_def list_all_length)
    then have m: "step_metrics s = None" using assms(1) by (simp add: metrics_None)
    have same: "elapsed_of g = elapsed_of (goroutines s ! k)" "failed g = failed (goroutines s ! k)"
      by (simp_all add: g_def elapsed_of_def failed_def)
    have "map elapsed_of ((goroutines s)[k := g]) = map elapsed_of (goroutines s)"
      using 1(1) same(1) by (rule map_update_same)
    moreover have "length (filter failed ((goroutines s)[k := g])) = length (filter failed (goroutines s))"
      by (rule filter_length_update_same [OF 1(1) same(2)])
    ultimately show ?thesis using assms(1) m nr 1(4)
      by (simp add: inv_account_def g_def)
  qed
qed

lemma inv_sent_init: "inv_sent (init_step i out)"
  by (simp add: inv_sent_def init_step_def)

lemma inv_sent_fire:
  assumes "inv_sent s" "fire i cs e s = Some s'"
  shows "inv_sent s'"
proof (cases e)
  case Driver
  with assms(2) have f: "fire i cs Driver s = Some s'" by simp
  from f show ?thesis
    by (cases rule: fire_Driver_cases)
      (use assms(1) in \<open>simp_all add: inv_sent_def spawn_def report_def Let_def\<close>)
next
  case (Return k env)
  with assms(2) have f: "fire i cs (Return k env) s = Some s'" by simp
  from f show ?thesis
  proof (cases rule: fire_Return_cases)
    case 1
    show ?thesis using assms(1) unfolding inv_sent_def 1(3) record_result_fields
      by (rule list_all_update) (auto intro: exI [of _ env])
  qed
next
  case (Done k)
  with assms(2) have f: "fire i cs (Done k) s = Some s'" by simp
  from f show ?thesis
  proof (cases rule: fire_Done_cases)
    case 1
    let ?P = "\<lambda>g. case g_result g of
                      None \<Rightarrow> g_sent g = []
                    | Some r \<Rightarrow> (\<exists>env. run env (g_conn g) (g_workerNum g) = (r, g_sent g))"
    have all: "list_all ?P (goroutines s)" using assms(1) by (simp add: inv_sent_def)
    then have "?P (goroutines s ! k)" using 1(1) by (simp add: list_all_length)
    then have "?P ((goroutines s ! k)\<lparr>g_done := True\<rparr>)" by (simp split: option.splits)
    with all have "list_all ?P ((goroutines s)[k := (goroutines s ! k)\<lparr>g_done := True\<rparr>])"
      by (rule list_all_update)
    then show ?thesis by (simp add: inv_sent_def 1(4))
  qed
qed

lemma inv_step_exec:
  assumes "exec i cs evs (init_step i out) = Some s"
  shows "inv_step i cs s"
proof (rule exec_invariant [OF assms])
  show "inv_step i cs (init_step i out)"
    by (simp add: inv_step_def inv_launch_init inv_wg_init inv_account_init inv_sent_init)
next
  fix e s s'
  assume "inv_step i cs s" "fire i cs e s = Some s'"
  then show "inv_step i cs s'"
    unfolding inv_step_def
    by (intro conjI) (blast intro: inv_launch_fire inv_wg_fire inv_account_fire inv_sent_fire)+
qed

lemma returns_append: "returns i cs (xs @ ys) = returns i cs xs @ returns i cs ys"
  by (induction i cs xs rule: returns.induct) simp_all

lemma successes_append [simp]: "successes (xs @ ys) = successes xs @ successes ys"
  by (simp add: successes_def)

lemma failures_append [simp]: "failures (xs @ ys) = failures xs @ failures ys"
  by (simp add: failures_def)

lemma exec_append:
  "exec i cs (xs @ ys) s = (case exec i cs xs s of None \<Rightarrow> None | Some s1 \<Rightarrow> exec i cs ys s1)"
  by (induction xs arbitrary: s) (simp_all split: option.splits)

lemma exec_snoc_Some:
  assumes "exec i cs (evs @ [e]) s = Some s'"
  obtains s1 where "exec i cs evs s = Some s1" "fire i cs e s1 = Some s'"
  using assms by (auto simp: exec_append split: option.splits)

lemma trace_ok_fire:
  assumes "trace_ok i cs out evs s" "inv_step i cs s" "fire i cs e s = Some s'"
  shows "trace_ok i cs out (evs @ [e]) s'"
proof (cases e)
  case Driver
  with assms(3) have f: "fire i cs Driver s = Some s'" by simp
  have r: "returns i cs (evs @ [e]) = returns i cs evs" by (simp add: returns_append Driver)
  from f show ?thesis
  proof (cases rule: fire_Driver_cases)
    case (spawn j)
    then show ?thesis using assms(1) by (simp add: trace_ok_def r)
  next
    case (crash j)
    then show ?thesis using assms(1) by (simp add: trace_ok_def r)
  next
    case (wait j)
    then show ?thesis using assms(1) by (simp add: trace_ok_def r)
  next
    case report
    then show ?thesis using assms(1)
      by (simp add: trace_ok_def r report_def Let_def Calc_def data_line_def)
  qed
next
  case (Return k env)
  with assms(3) have f: "fire i cs (Return k env) s = Some s'" by simp
  from f show ?thesis
  proof (cases rule: fire_Return_cases)
    case 1
    have l: "inv_launch i cs s" using assms(2) by (simp add: inv_step_def)
    have args: "g_conn (goroutines s ! k) = cs ! k" "g_workerNum (goroutines s ! k) = int i"
      using l 1(1) by (simp_all add: inv_launch_def)
    have nd: "\<not> g_done (goroutines s ! k)"
      using l 1(1,2) by (auto simp: inv_launch_def list_all_length)
    have nr: "drv s \<noteq> Reported"
      using l 1(1) nd by (auto simp: inv_launch_def list_all_length)
    define res where "res = run env (cs ! k) (int i)"
    have s': "s' = record_result k res s" using 1(3) args by (simp add: res_def)
    have r: "returns i cs (evs @ [e]) = returns i cs evs @ [fst res]"
      by (simp add: returns_append Return res_def)
    show ?thesis
    proof (cases "fst res")
      case (Inl err)
      then show ?thesis using assms(1) nr
        by (simp add: trace_ok_def r s' record_result_Inl [OF Inl] record_result_fields
            successes_def failures_def)
    next
      case (Inr d)
      then show ?thesis using assms(1) nr
        by (simp add: trace_ok_def r s' record_result_Inr [OF Inr] record_result_fields
            successes_def failures_def AddTime_def)
    qed
  qed
next
  case (Done k)
  with assms(3) have f: "fire i cs (Done k) s = Some s'" by simp
  have r: "returns i cs (evs @ [e]) = returns i cs evs" by (simp add: returns_append Done)
  from f show ?thesis
    by (cases rule: fire_Done_cases) (use assms(1) in \<open>simp add: trace_ok_def r\<close>)
qed

lemma trace_ok_exec:
  "exec i cs evs (init_step i out) = Some s \<Longrightarrow> trace_ok i cs out evs s"
proof (induction evs arbitrary: s rule: rev_induct)
  case Nil
  then show ?case
    by (auto simp: trace_ok_def init_step_def tachymeter_New_def successes_def failures_def)
next
  case (snoc e evs)
  from snoc.prems obtain s1 where
    s1: "exec i cs evs (init_step i out) = Some s1" "fire i cs e s1 = Some s"
    by (rule exec_snoc_Some)
  from snoc.IH [OF s1(1)] inv_step_exec [OF s1(1)] s1(2)
  show ?case by (rule trace_ok_fire)
qed



lemma run_elapsed:
  "fst (run env c workerNum) = Inr d \<Longrightarrow> d = now_end env - now_start env"
  by (auto simp: run_def Let_def split: option.splits prod.splits sum.splits)

lemma launch_all:
  "j \<le> i + 1 \<Longrightarrow> j \<le> length cs \<Longrightarrow>
   exec i cs (replicate j Driver) (init_step i out) =
     Some ((init_step i out)\<lparr>goroutines := map (\<lambda>k. spawn (cs ! k) i) [0..<j],
                               drv := Launching j\<rparr>)"
proof (induction j)
  case 0
  then show ?case by (simp add: init_step_def)
next
  case (Suc j)
  have "replicate (Suc j) Driver = replicate j Driver @ [Driver]"
    by (simp add: replicate_append_same)
  then show ?case using Suc by (simp add: exec_append init_step_def)
qed

lemma results_partition:
  "list_all (\<lambda>g. g_result g \<noteq> None) gs \<Longrightarrow>
   length (concat (map elapsed_of gs)) + length (filter failed gs) = length gs"
  by (induction gs) (auto simp: elapsed_of_def failed_def split: sum.splits)

lemma successes_origin:
  "d \<in> set (successes (returns i cs evs)) \<Longrightarrow>
   \<exists>k env. Return k env \<in> set evs \<and> fst (run env (cs ! k) (int i)) = Inr d"
proof (induction i cs evs rule: returns.induct)
  case (2 i cs k env es)
  show ?case
  proof (cases "fst (run env (cs ! k) (int i)) = Inr d")
    case True
    then have "Return k env \<in> set (Return k env # es) \<and> fst (run env (cs ! k) (int i)) = Inr d"
      by simp
    then show ?thesis by blast
  next
    case False
    then have "d \<in> set (successes (returns i cs es))"
      using "2.prems" by (auto simp: successes_def split: sum.splits)
    from "2.IH" [OF this] show ?thesis by auto
  qed
qed (simp_all add: successes_def)

lemma reported_all_done:
  assumes "inv_step i cs s" "drv s = Reported"
  shows "length (goroutines s) = i + 1"
    and "list_all (\<lambda>g. g_result g \<noteq> None \<and> g_done g) (goroutines s)"
  using assms by (auto simp: inv_step_def inv_launch_def list_all_length)

lemma metrics_reported:
  assumes "inv_step i cs s" "step_metrics s \<noteq> None"
  shows "drv s = Reported" "step_metrics s = Some (Calc (tach s))"
  using assms by (auto simp: inv_step_def inv_account_def split: option.splits)

lemma data_line_reported:
  assumes "trace_ok i cs out evs s" "DataLine n a b c \<in> set (drop (length out) (step_err s))"
  shows "drv s = Reported"
  using assms by (auto simp: trace_ok_def work_error_line_def split: if_splits)

text \<open>
  Claim C2. In step \<open>n = i + 1\<close> the driver starts one goroutine per slot of \<open>[0, n)\<close>,
  never more than \<open>n\<close>, each on the connection of its slot; all \<open>n\<close> can be in flight at
  the same time (after the launching loop none has returned yet); and whenever the
  percentiles have been computed or the data line of the step has been written, all \<open>n\<close>
  goroutines have returned from \<^verbatim>\<open>run\<close> and passed their \<^verbatim>\<open>wg.Done()\<close>. This holds for
  every schedule, that is for every interleaving of the driver and the goroutines.
\<close>

theorem step_barrier:
  "exec i cs evs (init_step i out) = Some s \<Longrightarrow>
     length (goroutines s) \<le> i + 1
   \<and> (\<forall>k<length (goroutines s).
         g_conn (goroutines s ! k) = cs ! k)
   \<and> (step_metrics s \<noteq> None
        \<or> (\<exists>n a b c. DataLine n a b c \<in> set (drop (length out) (step_err s))) \<longrightarrow>
       length (goroutines s) = i + 1
       \<and> list_all (\<lambda>g. g_result g \<noteq> None \<and> g_done g) (goroutines s))
   \<and> (i < length cs \<longrightarrow>
       (\<exists>s0. exec i cs (replicate (i + 1) Driver) (init_step i out) = Some s0
             \<and> length (goroutines s0) = i + 1
             \<and> list_all (\<lambda>g. g_result g = None) (goroutines s0)))"
proof (intro conjI impI)
  assume ex: "exec i cs evs (init_step i out) = Some s"
  note inv = inv_step_exec [OF ex] and tr = trace_ok_exec [OF ex]
  show "length (goroutines s) \<le> i + 1"
    using inv by (cases "drv s") (auto simp: inv_step_def inv_launch_def)
  show "\<forall>k<length (goroutines s). g_conn (goroutines s ! k) = cs ! k"
    using inv by (simp add: inv_step_def inv_launch_def)
  {
    assume "step_metrics s \<noteq> None
        \<or> (\<exists>n a b c. DataLine n a b c \<in> set (drop (length out) (step_err s)))"
    then have rep: "drv s = Reported"
      using metrics_reported(1) [OF inv] data_line_reported [OF tr] by blast
    show "length (goroutines s) = i + 1"
      and "list_all (\<lambda>g. g_result g \<noteq> None \<and> g_done g) (goroutines s)"
      using reported_all_done [OF inv rep] by simp_all
  }
  {
    assume "i < length cs"
    then have "exec i cs (replicate (i + 1) Driver) (init_step i out) =
     Some ((init_step i out)\<lparr>goroutines := map (\<lambda>k. spawn (cs ! k) i) [0..<i + 1],
                               drv := Launching (i + 1)\<rparr>)"
      by (intro launch_all) simp_all
    then show "\<exists>s0. exec i cs (replicate (i + 1) Driver) (init_step i out) = Some s0
             \<and> length (goroutines s0) = i + 1
             \<and> list_all (\<lambda>g. g_result g = None) (goroutines s0)"
      by (simp add: list_all_iff spawn_def)
  }
qed

lemma run_env_ok: "fst (run env_ok c w) = Inr 250"
  using run_to_commit [of env_ok "\<lambda>i. of_nat i + 1" c w]
  by (simp add: env_ok_def)

lemma run_env_fail: "fst (run env_fail c w) = Inl ''Error beginning transaction: bad connection''"
  by (simp add: run_def env_fail_def env_ok_def)

lemma exec_sched_two:
  "\<exists>s. exec 1 [10, 11] sched_two (init_step 1 []) = Some s
       \<and> drv s = Reported
       \<and> t_times (tach s) = [250]
       \<and> numErrors s = 1
       \<and> step_metrics s = Some \<lparr>P50 = 250, P75 = 250, P95 = 250\<rparr>
       \<and> step_err s = [work_error_line ''Error beginning transaction: bad connection'',
                       DataLine 2 (Seconds 250) (Seconds 250) (Seconds 250)]"
  by (simp add: sched_two_def init_step_def spawn_def record_result_def report_def crashed_def
      run_env_ok run_env_fail Let_def Calc_def percentile_def ordinal_def AddTime_def
      tachymeter_New_def)

theorem step_barrier_witness:
  "\<exists>s. exec 1 [10, 11] sched_two (init_step 1 []) = Some s
       \<and> step_metrics s \<noteq> None
       \<and> length (goroutines s) = 2
       \<and> list_all (\<lambda>g. g_result g \<noteq> None \<and> g_done g) (goroutines s)
       \<and> map g_conn (goroutines s) = [10, 11]"
proof -
  from exec_sched_two obtain s where
    s: "exec 1 [10, 11] sched_two (init_step 1 []) = Some s" "step_metrics s \<noteq> None"
    by auto
  from step_barrier [OF s(1)] s(2)
  have a: "length (goroutines s) = 2"
    "list_all (\<lambda>g. g_result g \<noteq> None \<and> g_done g) (goroutines s)"
    "\<forall>k<length (goroutines s). g_conn (goroutines s ! k) = [10, 11] ! k"
    by simp_all
  have "map g_conn (goroutines s) = [10, 11]"
    using a(1,3) by (intro nth_equalityI) simp_all
  with s a show ?thesis by (intro exI [of _ s]) simp
qed

lemma return_effect:
  assumes inv: "inv_step i cs s" and f: "fire i cs (Return k env) s = Some s'"
  shows "case fst (run env (cs ! k) (int i)) of
           Inl err \<Rightarrow> tach s' = tach s \<and> numErrors s' = numErrors s + 1
             \<and> step_err s' = step_err s @ [work_error_line err] \<and> drv s' = drv s
         | Inr d \<Rightarrow> tach s' = AddTime d (tach s) \<and> numErrors s' = numErrors s
             \<and> step_err s' = step_err s \<and> drv s' = drv s
             \<and> d = now_end env - now_start env"
  using f
proof (cases rule: fire_Return_cases)
  case 1
  have args: "g_conn (goroutines s ! k) = cs ! k" "g_workerNum (goroutines s ! k) = int i"
    using inv 1(1) by (simp_all add: inv_step_def inv_launch_def)
  define res where "res = run env (cs ! k) (int i)"
  have s': "s' = record_result k res s" using 1(3) args by (simp add: res_def)
  show ?thesis
  proof (cases "fst res")
    case (Inl err)
    then show ?thesis
      unfolding res_def [symmetric] s'
      by (simp add: record_result_Inl [OF Inl] record_result_fields)
  next
    case (Inr d)
    then have "d = now_end env - now_start env"
      unfolding res_def by (rule run_elapsed)
    with Inr show ?thesis
      unfolding res_def [symmetric] s'
      by (simp add: record_result_Inr [OF Inr] record_result_fields)
  qed
qed

lemma times_nonneg:
  assumes tr: "trace_ok i cs out evs s" and mono: "\<forall>e\<in>set evs. clock_monotonic e"
    and d: "d \<in> set (t_times (tach s))"
  shows "0 \<le> d"
proof -
  from d tr have "d \<in> set (successes (returns i cs evs))" by (simp add: trace_ok_def)
  then obtain k env where e: "Return k env \<in> set evs" "fst (run env (cs ! k) (int i)) = Inr d"
    using successes_origin by blast
  from mono e(1) have "now_start env \<le> now_end env"
    by (auto simp: clock_monotonic_def)
  with run_elapsed [OF e(2)] show ?thesis by simp
qed

text \<open>
  Claim C5. In every state a step can reach, the samples held by the estimator are
  exactly the durations returned by the goroutines whose call of \<^verbatim>\<open>run\<close> succeeded, and
  the error counter is the number of goroutines whose call failed (read as a signed 32-bit
  value, as long as the step has fewer than \<open>2^31\<close> goroutines). A returning goroutine
  changes them as follows: on failure the estimator is unchanged and the counter grows by
  one; on success the counter is unchanged and one sample is added, the difference of the
  two clock readings of that call. The percentiles are computed from these samples only,
  and at that point successes and failures add up to \<open>n = i + 1\<close>. When the clock of
  every call is monotonic, every sample is non-negative.
\<close>

theorem step_accounting:
  "exec i cs evs (init_step i out) = Some s \<Longrightarrow>
     mset (t_times (tach s)) = mset (concat (map elapsed_of (goroutines s)))
   \<and> numErrors s = of_nat (length (filter failed (goroutines s)))
   \<and> (i + 1 < 2 ^ 31 \<longrightarrow> sint (numErrors s) = int (length (filter failed (goroutines s))))
   \<and> (step_metrics s \<noteq> None \<longrightarrow>
        step_metrics s = Some (Calc (tach s))
        \<and> length (t_times (tach s)) + length (filter failed (goroutines s)) = i + 1)
   \<and> (\<forall>k env s'. fire i cs (Return k env) s = Some s' \<longrightarrow>
        (case fst (run env (cs ! k) (int i)) of
           Inl err \<Rightarrow> tach s' = tach s \<and> numErrors s' = numErrors s + 1
         | Inr d \<Rightarrow> tach s' = AddTime d (tach s) \<and> numErrors s' = numErrors s
             \<and> d = now_end env - now_start env))
   \<and> ((\<forall>e\<in>set evs. clock_monotonic e) \<longrightarrow> (\<forall>d\<in>set (t_times (tach s)). 0 \<le> d))"
proof -
  assume ex: "exec i cs evs (init_step i out) = Some s"
  note inv = inv_step_exec [OF ex] and tr = trace_ok_exec [OF ex]
  have acc: "inv_account s" and lch: "inv_launch i cs s" using inv by (simp_all add: inv_step_def)
  have m: "mset (t_times (tach s)) = mset (concat (map elapsed_of (goroutines s)))"
    and n: "numErrors s = of_nat (length (filter failed (goroutines s)))"
    using acc by (simp_all add: inv_account_def)
  have len: "length (goroutines s) \<le> i + 1"
    using lch by (cases "drv s") (auto simp: inv_launch_def)
  have s: "sint (numErrors s) = int (length (filter failed (goroutines s)))" if "i + 1 < 2 ^ 31"
  proof -
    have "length (filter failed (goroutines s)) \<le> length (goroutines s)"
      by (rule length_filter_le)
    with len that have "length (filter failed (goroutines s)) < 2 ^ 31" by linarith
    then show ?thesis unfolding n
      by (simp add: signed_of_nat signed_take_bit_int_eq_self)
  qed
  have r: "step_metrics s = Some (Calc (tach s))
        \<and> length (t_times (tach s)) + length (filter failed (goroutines s)) = i + 1"
    if "step_metrics s \<noteq> None"
  proof -
    note rep = metrics_reported [OF inv that]
    note dn = reported_all_done [OF inv rep(1)]
    have "list_all (\<lambda>g. g_result g \<noteq> None) (goroutines s)"
      using dn(2) by (simp add: list_all_iff)
    from results_partition [OF this] dn(1)
    have "length (concat (map elapsed_of (goroutines s))) + length (filter failed (goroutines s)) = i + 1"
      by simp
    moreover have "length (t_times (tach s)) = length (concat (map elapsed_of (goroutines s)))"
      using m by (metis size_mset)
    ultimately show ?thesis using rep(2) by simp
  qed
  have e: "\<forall>k env s'. fire i cs (Return k env) s = Some s' \<longrightarrow>
        (case fst (run env (cs ! k) (int i)) of
           Inl err \<Rightarrow> tach s' = tach s \<and> numErrors s' = numErrors s + 1
         | Inr d \<Rightarrow> tach s' = AddTime d (tach s) \<and> numErrors s' = numErrors s
             \<and> d = now_end env - now_start env)"
  proof (intro allI impI)
    fix k env s' assume "fire i cs (Return k env) s = Some s'"
    from return_effect [OF inv this]
    show "case fst (run env (cs ! k) (int i)) of
           Inl err \<Rightarrow> tach s' = tach s \<and> numErrors s' = numErrors s + 1
         | Inr d \<Rightarrow> tach s' = AddTime d (tach s) \<and> numErrors s' = numErrors s
             \<and> d = now_end env - now_start env"
      by (simp split: sum.splits)
  qed
  have p: "\<forall>d\<in>set (t_times (tach s)). 0 \<le> d" if "\<forall>e\<in>set evs. clock_monotonic e"
    using times_nonneg [OF tr that] by blast
  from m n s r e p show ?thesis by blast
qed

lemma sched_two_monotonic: "\<forall>e\<in>set sched_two. clock_monotonic e"
  by (simp add: sched_two_def clock_monotonic_def env_ok_def env_fail_def)

theorem step_accounting_witness:
  "\<exists>s. exec 1 [10, 11] sched_two (init_step 1 []) = Some s
       \<and> t_times (tach s) = [250] \<and> numErrors s = 1
       \<and> sint (numErrors s) = int (length (filter failed (goroutines s)))
       \<and> step_metrics s = Some (Calc (tach s))
       \<and> length (t_times (tach s)) + length (filter failed (goroutines s)) = 2
       \<and> (\<forall>d\<in>set (t_times (tach s)). 0 \<le> d)"
proof -
  from exec_sched_two obtain s where
    s: "exec 1 [10, 11] sched_two (init_step 1 []) = Some s" "step_metrics s \<noteq> None"
      "t_times (tach s) = [250]" "numErrors s = 1"
    by auto
  note sa = step_accounting [OF s(1)]
  have lt: "(1::nat) + 1 < 2 ^ 31" by simp
  have c3: "sint (numErrors s) = int (length (filter failed (goroutines s)))"
    using sa [THEN conjunct2, THEN conjunct2, THEN conjunct1] lt by (rule mp)
  have c4: "step_metrics s = Some (Calc (tach s))
        \<and> length (t_times (tach s)) + length (filter failed (goroutines s)) = 1 + 1"
    using sa [THEN conjunct2, THEN conjunct2, THEN conjunct2, THEN conjunct1] s(2) by (rule mp)
  have c6: "\<forall>d\<in>set (t_times (tach s)). 0 \<le> d"
    using sa [THEN conjunct2, THEN conjunct2, THEN conjunct2, THEN conjunct2, THEN conjunct2]
      sched_two_monotonic by (rule mp)
  from c4 have c4': "step_metrics s = Some (Calc (tach s))"
    "length (t_times (tach s)) + length (filter failed (goroutines s)) = 2"
    by simp_all
  show ?thesis
    using s(1,3,4) c3 c4' c6 by (intro exI [of _ s] conjI)
qed

section \<open>The warm-up pass and the worker number\<close>

lemma warmup_prefix:
  "\<forall>j\<in>set pre. j < length cs \<and> (\<exists>d. fst (run (warm_env w j) (cs ! j) (int j)) = Inr d) \<Longrightarrow>
   warmup w cs (pre @ rest) = warmup w cs rest"
  by (induction pre) auto

lemma warmup_fails:
  assumes "k < n" "n \<le> length cs"
    "\<forall>j<k. \<exists>d. fst (run (warm_env w j) (cs ! j) (int j)) = Inr d"
    "fst (run (warm_env w k) (cs ! k) (int k)) = Inl err"
  shows "warmup w cs [0..<n] = Panicked err"
proof -
  have "warmup w cs ([0..<k] @ k # [Suc k..<n]) = warmup w cs (k # [Suc k..<n])"
    using assms(1-3) by (intro warmup_prefix) auto
  then show ?thesis using assms(1,2,4) by (simp add: upt_split [OF assms(1)])
qed

text \<open>
  Claim C10. In the warm-up pass the first failing call of \<^verbatim>\<open>run\<close> makes the pass, and
  with it \<^verbatim>\<open>main\<close>, end in a panic carrying that error: the benchmark never starts. In a
  ramp step a failing call leaves the driver where it was and not crashed; it adds one to
  the error counter, writes one diagnostic line and adds no sample.
\<close>

theorem warmup_failure_aborts:
  "(k < n \<and> n \<le> length (conns st)
      \<and> (\<forall>j<k. \<exists>d. fst (run (warm_env w j) (conns st ! j) (int j)) = Inr d)
      \<and> fst (run (warm_env w k) (conns st ! k) (int k)) = Inl err \<longrightarrow>
      warmup w (conns st) [0..<n] = Panicked err
      \<and> main_phases w n st = Some (Panicked err))
   \<and> (exec i cs evs (init_step i out) = Some s
      \<and> fire i cs (Return j env) s = Some s'
      \<and> fst (run env (cs ! j) (int i)) = Inl err \<longrightarrow>
      drv s' = drv s \<and> \<not> crashed s'
      \<and> numErrors s' = numErrors s + 1
      \<and> step_err s' = step_err s @ [work_error_line err]
      \<and> tach s' = tach s)"
proof (intro conjI impI)
  assume a: "k < n \<and> n \<le> length (conns st)
      \<and> (\<forall>j<k. \<exists>d. fst (run (warm_env w j) (conns st ! j) (int j)) = Inr d)
      \<and> fst (run (warm_env w k) (conns st ! k) (int k)) = Inl err"
  then show w: "warmup w (conns st) [0..<n] = Panicked err"
    by (intro warmup_fails [of k]) simp_all
  then show "main_phases w n st = Some (Panicked err)"
    by (simp add: main_phases_def)
next
  assume a: "exec i cs evs (init_step i out) = Some s
      \<and> fire i cs (Return j env) s = Some s'
      \<and> fst (run env (cs ! j) (int i)) = Inl err"
  then have ex: "exec i cs evs (init_step i out) = Some s"
    and f: "fire i cs (Return j env) s = Some s'"
    and r: "fst (run env (cs ! j) (int i)) = Inl err" by simp_all
  from f have nc: "\<not> crashed s" by (cases rule: fire_Return_cases)
  from return_effect [OF inv_step_exec [OF ex] f] r
  have e: "tach s' = tach s" "numErrors s' = numErrors s + 1"
    "step_err s' = step_err s @ [work_error_line err]" "drv s' = drv s"
    by simp_all
  from e(4) nc have "\<not> crashed s'" by (simp add: crashed_def)
  with e show "drv s' = drv s" "\<not> crashed s'" "numErrors s' = numErrors s + 1"
    "step_err s' = step_err s @ [work_error_line err]" "tach s' = tach s"
    by simp_all
qed

lemma exec_two_launched:
  "\<exists>s s'. exec 1 [10, 11] [Driver, Driver] (init_step 1 []) = Some s
       \<and> fire 1 [10, 11] (Return 0 env_fail) s = Some s'
       \<and> drv s = Launching 2 \<and> numErrors s = 0 \<and> step_err s = []"
  by (simp add: init_step_def spawn_def crashed_def)

theorem warmup_failure_aborts_witness:
  "warmup world_cold [10, 11, 12] [0..<3] =
     Panicked ''Error beginning transaction: bad connection''
   \<and> main_phases world_cold 3 \<lparr>conns = [10, 11, 12], db_calls = 3, closed = [], stderr = []\<rparr> =
     Some (Panicked ''Error beginning transaction: bad connection'')
   \<and> (\<exists>s s'. exec 1 [10, 11] [Driver, Driver] (init_step 1 []) = Some s
       \<and> fire 1 [10, 11] (Return 0 env_fail) s = Some s'
       \<and> drv s' = Launching 2 \<and> \<not> crashed s' \<and> numErrors s' = 1
       \<and> step_err s' = [work_error_line ''Error beginning transaction: bad connection''])"
proof -
  let ?st = "\<lparr>conns = [10, 11, 12], db_calls = 3, closed = [], stderr = []\<rparr>"
  let ?err = "''Error beginning transaction: bad connection''"
  have h: "(1::nat) < 3 \<and> 3 \<le> length (conns ?st)
      \<and> (\<forall>j<1. \<exists>d. fst (run (warm_env world_cold j) (conns ?st ! j) (int j)) = Inr d)
      \<and> fst (run (warm_env world_cold 1) (conns ?st ! 1) (int 1)) = Inl ?err"
    by (simp add: world_cold_def world_ok_def run_env_ok run_env_fail)
  from warmup_failure_aborts [THEN conjunct1, rule_format, OF h]
  have a: "warmup world_cold [10, 11, 12] [0..<3] = Panicked ?err"
    "main_phases world_cold 3 ?st = Some (Panicked ?err)"
    by simp_all
  from exec_two_launched obtain s s' where
    s: "exec 1 [10, 11] [Driver, Driver] (init_step 1 []) = Some s"
      "fire 1 [10, 11] (Return 0 env_fail) s = Some s'"
      "drv s = Launching 2" "numErrors s = 0" "step_err s = []"
    by blast
  have r: "fst (run env_fail ([10, 11] ! 0) (int 1)) = Inl ?err" by (rule run_env_fail)
  from warmup_failure_aborts [THEN conjunct2, rule_format, OF conjI [OF s(1) conjI [OF s(2) r]]] s(3-5)
  have b: "drv s' = Launching 2" "\<not> crashed s'" "numErrors s' = 1"
    "step_err s' = [work_error_line ?err]"
    by simp_all
  from a s(1,2) b show ?thesis by blast
qed

lemma step_worker_numbers:
  "exec i cs evs (init_step i out) = Some s \<Longrightarrow> k < length (goroutines s) \<Longrightarrow>
   g_conn (goroutines s ! k) = cs ! k \<and> g_workerNum (goroutines s ! k) = int i"
  using inv_step_exec [of i cs evs out s] by (simp add: inv_step_def inv_launch_def)

lemma run_env_ok_sent:
  "snd (run env_ok c w) =
     BeginTx # inserts env_ok (w smod numTables) 10
       @ selects (\<lambda>i. of_nat i + 1) (w smod numTables) 10
       @ deletes (\<lambda>i. of_nat i + 1) (w smod numTables) 10 @ [Commit]"
  using run_to_commit [of env_ok "\<lambda>i. of_nat i + 1" c w]
  by (simp add: env_ok_def)

lemma tableNum_small: "(1::int) smod numTables = 1" "(0::int) smod numTables = 0"
  by (simp_all add: signed_modulo_int_def numTables_def)

text \<open>
  Claim C1 (the code differs). The claim asks that the goroutine of slot \<open>s\<close> call
  \<^verbatim>\<open>run\<close> with worker number \<open>s\<close> and so work on table \<open>s mod numTables\<close>. The ramp loop
  passes the loop variable \<open>i\<close> of the step, not the slot index \<open>j\<close>: every goroutine of
  step \<open>n = i + 1\<close> has worker number \<open>n - 1\<close> (\<open>step_worker_numbers\<close>). Evaluated at step
  \<open>n = 2\<close> with the connections \<open>10\<close> and \<open>11\<close>: both slots get worker number \<open>1\<close>, and
  slot \<open>0\<close> sends its statements to table \<open>1\<close>, not to table \<open>0\<close> as a call with worker
  number \<open>0\<close> does. The warm-up pass, in contrast, calls \<^verbatim>\<open>run(conns[i], i)\<close>.
\<close>

theorem ramp_worker_number_is_step_index:
  "\<exists>s. exec 1 [10, 11] sched_two (init_step 1 []) = Some s
       \<and> map g_conn (goroutines s) = [10, 11]
       \<and> map g_workerNum (goroutines s) = [1, 1]
       \<and> g_sent (goroutines s ! 0) =
           BeginTx # inserts env_ok 1 10 @ selects (\<lambda>i. of_nat i + 1) 1 10
             @ deletes (\<lambda>i. of_nat i + 1) 1 10 @ [Commit]
       \<and> g_sent (goroutines s ! 0) \<noteq> snd (run env_ok 10 0)"
  by (simp add: sched_two_def init_step_def spawn_def record_result_def report_def crashed_def
      run_env_ok run_env_fail run_env_ok_sent tableNum_small Let_def Calc_def percentile_def
      ordinal_def AddTime_def tachymeter_New_def upt_conv_Cons del: upt_Suc)

section \<open>Properties of the ramp loop\<close>

lemma establish_loop_Inr:
  "establish_loop dbc c i sl = (Returned (Inr h), c', sl') \<Longrightarrow>
   c < c' \<and> dbc (c' - 1) = Inr h"
proof (induction dbc c i sl rule: establish_loop.induct)
  case (1 dbc calls i sleeps)
  show ?case
  proof (cases "i < connRetries")
    case False
    then show ?thesis using "1.prems" by (subst (asm) establish_loop.simps) simp
  next
    case lt: True
    show ?thesis
    proof (cases "dbc calls")
      case (Inr h')
      then show ?thesis using "1.prems" lt by (auto simp: establish_ok_step)
    next
      case (Inl e)
      show ?thesis
      proof (cases "i = connRetries - 1")
        case True
        then show ?thesis using "1.prems" Inl by (auto simp: establish_last_step)
      next
        case False
        then have lt': "i < connRetries - 1" using lt by simp
        have "establish_loop dbc (calls + 1) (i + 1) (sleeps @ [i + 1]) = (Returned (Inr h), c', sl')"
          using "1.prems" establish_fail_step [of i dbc calls e sleeps, OF lt' Inl] by simp
        from "1.IH" [OF lt Inl False this] show ?thesis by simp
      qed
    qed
  qed
qed

lemma ramp_iter_Returned:
  assumes "ramp_iter w i st = Some (Returned st')"
  obtains c sl s where "i < length (conns st)" "conn_Close w (conns st ! i) = None"
    "establishConnection (db_Conn w) (db_calls st) = (Returned (Inr c), db_calls st', sl)"
    "exec i ((conns st)[i := c]) (schedule w i) (init_step i (stderr st)) = Some s"
    "drv s = Reported"
    "conns st' = (conns st)[i := c]" "closed st' = closed st @ [conns st ! i]"
    "stderr st' = step_err s"
  using assms unfolding ramp_iter_def Let_def
  by (auto split: if_splits option.splits prod.splits outcome.splits sum.splits driver_pc.splits)

text \<open>
  Claim C3, as amended. At the start of ramp step \<open>n = i + 1\<close> exactly one connection is
  closed and replaced, that of slot \<open>i = n - 1\<close>: \<^verbatim>\<open>Close\<close> is called on its handle and the
  slot receives the handle that the successful attempt of \<^verbatim>\<open>establishConnection\<close>
  returned, after at most 5 calls of \<^verbatim>\<open>db.Conn\<close>. Every other slot keeps the handle it
  had, and the slice keeps its length, so slot indices are stable.
\<close>

theorem ramp_iter_replaces_one_slot:
  "ramp_iter w i st = Some (Returned st') \<Longrightarrow>
     i < length (conns st) \<and> length (conns st') = length (conns st)
   \<and> (\<forall>j. j \<noteq> i \<longrightarrow> conns st' ! j = conns st ! j)
   \<and> closed st' = closed st @ [conns st ! i]
   \<and> db_calls st < db_calls st' \<and> db_calls st' \<le> db_calls st + 5
   \<and> db_Conn w (db_calls st' - 1) = Inr (conns st' ! i)"
proof -
  assume "ramp_iter w i st = Some (Returned st')"
  then show ?thesis
  proof (cases rule: ramp_iter_Returned)
    case (1 c sl s)
    have b: "db_calls st < db_calls st' \<and> db_Conn w (db_calls st' - 1) = Inr c"
      using 1(3) unfolding establishConnection_def by (rule establish_loop_Inr)
    have u: "db_calls st' \<le> db_calls st + 5"
      using establish_loop_returns [of 0 "db_Conn w" "db_calls st" "[]"] 1(3)
      by (simp add: establishConnection_def connRetries_def)
    show ?thesis using 1(1,6,7) b u by simp
  qed
qed

lemma establishConnection_first:
  "dbc c = Inr h \<Longrightarrow> establishConnection dbc c = (Returned (Inr h), c + 1, [])"
  by (simp add: establishConnection_def establish_ok_step connRetries_def)

lemma ramp_iter_step1: "ramp_iter world_ok 0 st_start = Some (Returned st_step1)"
  by (simp add: ramp_iter_def world_ok_def st_start_def st_step1_def establishConnection_first
      sched_one_def init_step_def spawn_def record_result_def report_def crashed_def
      run_env_ok Let_def Calc_def percentile_def ordinal_def AddTime_def tachymeter_New_def
      header_def)

lemma ramp_iter_step2: "ramp_iter world_ok 1 st_step1 = Some (Returned st_step2)"
  by (simp add: ramp_iter_def world_ok_def st_step1_def st_step2_def establishConnection_first
      sched_two_def init_step_def spawn_def record_result_def report_def crashed_def
      run_env_ok run_env_fail Let_def Calc_def percentile_def ordinal_def AddTime_def
      tachymeter_New_def header_def)

text \<open>
  Claim C3, as stated, fails. The claim says that every slot's connection is closed and
  reacquired at the start of every step, so that every slot's handle changes from one step
  to the next. With two slots holding the handles \<open>10\<close> and \<open>11\<close> and a pool that hands out
  \<open>102\<close> and \<open>103\<close>: step 1 closes only handle \<open>10\<close> and leaves slot \<open>1\<close> untouched, step 2
  closes only handle \<open>11\<close> and slot \<open>0\<close> keeps handle \<open>102\<close>.
\<close>

theorem slot_handles_counterexample:
  "ramp_iter world_ok 0 st_start = Some (Returned st_step1)
   \<and> ramp_iter world_ok 1 st_step1 = Some (Returned st_step2)
   \<and> \<not> (conns st_step2 ! 0 \<noteq> conns st_step1 ! 0)
   \<and> \<not> (conns st_step1 ! 1 \<noteq> conns st_start ! 1)
   \<and> closed st_step1 = [10] \<and> closed st_step2 = [10, 11]"
  using ramp_iter_step1 ramp_iter_step2
  by (simp add: st_start_def st_step1_def st_step2_def)

theorem ramp_iter_replaces_one_slot_witness:
  "ramp_iter world_ok 1 st_step1 = Some (Returned st_step2)
   \<and> length (conns st_step2) = 2
   \<and> conns st_step2 ! 0 = conns st_step1 ! 0
   \<and> closed st_step2 = closed st_step1 @ [conns st_step1 ! 1]
   \<and> db_Conn world_ok (db_calls st_step2 - 1) = Inr (conns st_step2 ! 1)"
proof -
  note r = ramp_iter_replaces_one_slot [OF ramp_iter_step2]
  have n: "(0::nat) \<noteq> 1" by simp
  from r have "conns st_step2 ! 0 = conns st_step1 ! 0" using n by blast
  moreover from r have "length (conns st_step2) = length (conns st_step1)" by blast
  then have "length (conns st_step2) = 2" by (simp add: st_step1_def)
  moreover from r have "closed st_step2 = closed st_step1 @ [conns st_step1 ! 1]" by blast
  moreover from r have "db_Conn world_ok (db_calls st_step2 - 1) = Inr (conns st_step2 ! 1)" by blast
  ultimately show ?thesis using ramp_iter_step2 by blast
qed



















end
